theory Spec2Isabelle
  imports Complex_Main "HOL-Library.Word" "HOL-Library.Multiset"
begin

section \<open>Data model\<close>

text \<open>
  The codec works on bytes: a symbol is one of the 256 byte values. The headers that
  declare \<open>Code\<close>, \<open>CodeTable\<close>, \<open>Frequency\<close>, \<open>DepthCounterNode\<close> and the constants are
  not among the sources, so the records below carry exactly the fields that
  \<open>CodeTableAdapter.cpp\<close> reads and writes. The two size constants
  \<open>MAXIMUM_CODELENGTH\<close> and \<open>MAXIMUM_DATABLOCK_SIZE\<close> are parameters \<open>mcl\<close> and \<open>mdb\<close>
  of the functions that assert them; the bit-pattern of a code is an unsigned machine
  word of any width \<open>'a\<close>, so a code is an \<open>'a word Code\<close>.
\<close>

type_synonym byte = "8 word"

datatype error = AssertionFailed | InvalidDereference | CorruptStream

text \<open>Modelled from the spec: \<open>ALPHABET_SIZE\<close> of the absent \<open>constants.h\<close>; the
  alphabet is fixed at 256 symbols.\<close>

definition ALPHABET_SIZE :: nat where
  "ALPHABET_SIZE = 256"

record 'w Code =
  codelength :: nat
  code :: 'w

definition CodeMake :: "nat \<Rightarrow> 'a::len word \<Rightarrow> 'a word Code" where
  "CodeMake l c = \<lparr>codelength = l, code = c\<rparr>"

record CodeTableInfo =
  max_codelength :: nat

text \<open>The array \<open>codes[ALPHABET_SIZE]\<close> is indexed by a byte, so it is a total function
  on bytes.\<close>

record 'w CodeTable =
  info :: CodeTableInfo
  codes :: "byte \<Rightarrow> 'w Code"

record Frequency =
  symbol :: byte
  frequency :: nat

definition FrequencyMake :: "byte \<Rightarrow> nat \<Rightarrow> Frequency" where
  "FrequencyMake s f = \<lparr>symbol = s, frequency = f\<rparr>"

text \<open>
  A \<open>DepthCounterNode\<close> is a leaf owning a symbol or an inner node owning two children.
  The vector \<open>Nodes\<close> holds pointers to the leaves; the table builder and the comparator
  read only \<open>element\<close> and \<open>depth\<close> through them, which is the record \<open>Leaf\<close>.
\<close>

datatype DepthCounterNode = LeafNode byte | InnerNode DepthCounterNode DepthCounterNode

record Leaf =
  element :: byte
  depth :: nat

type_synonym Tree = "(nat \<times> DepthCounterNode) list"

definition all_symbols :: "byte list" where
  "all_symbols = map word_of_nat [0..<ALPHABET_SIZE]"

section \<open>Comparators and sorting\<close>

definition LeafComparator :: "Leaf \<Rightarrow> Leaf \<Rightarrow> bool" where
  "LeafComparator left right \<longleftrightarrow>
     depth left > depth right \<or> (depth left = depth right \<and> element left < element right)"

definition FrequencyComparator :: "Frequency \<Rightarrow> Frequency \<Rightarrow> bool" where
  "FrequencyComparator left right \<longleftrightarrow> frequency left < frequency right"

text \<open>
  \<open>std::sort\<close> with a comparator. The result is an ordered permutation of the input; this
  model keeps elements that compare equal in their input order, which \<open>std::sort\<close> leaves
  open. Two leaves with different symbols never compare equal under \<open>_LeafComparator\<close>, and
  of the sorted frequencies the proofs use only that they are a permutation of the
  unsorted ones.
\<close>

fun insert_by :: "('a \<Rightarrow> 'a \<Rightarrow> bool) \<Rightarrow> 'a \<Rightarrow> 'a list \<Rightarrow> 'a list" where
  "insert_by lt x [] = [x]"
| "insert_by lt x (y # ys) = (if lt y x then y # insert_by lt x ys else x # y # ys)"

definition sort_by :: "('a \<Rightarrow> 'a \<Rightarrow> bool) \<Rightarrow> 'a list \<Rightarrow> 'a list" where
  "sort_by lt xs = foldr (insert_by lt) xs []"

section \<open>The table builder\<close>

text \<open>
  \<open>_buildTable\<close>: the loop over the leaves after the first one. \<open>last_code\<close> is the local
  of the same name, \<open>cs\<close> the array \<open>_adaptee.codes\<close>. \<open>next_code\<close> is the value of
  \<open>last_code\<close> after one round: the pattern is incremented when the lengths agree, and
  incremented and then shifted right otherwise. Both assertions of the loop body are
  error branches.
\<close>

definition next_code :: "'a::len word Code \<Rightarrow> Leaf \<Rightarrow> 'a word Code" where
  "next_code last_code n =
     \<lparr>codelength = depth n,
      code = (if depth n = codelength last_code then code last_code + 1
              else drop_bit (codelength last_code - depth n) (code last_code + 1))\<rparr>"

fun buildTable_loop ::
  "nat \<Rightarrow> Leaf list \<Rightarrow> 'a::len word Code \<Rightarrow> (byte \<Rightarrow> 'a word Code) \<Rightarrow>
     error + (byte \<Rightarrow> 'a word Code)" where
  "buildTable_loop mcl [] last_code cs = Inr cs"
| "buildTable_loop mcl (n # ns) last_code cs =
     (if depth n \<noteq> codelength last_code \<and> \<not> codelength last_code > depth n
      then Inl AssertionFailed
      else
        let last_code' = next_code last_code n
        in if \<not> codelength last_code' < mcl then Inl AssertionFailed
           else buildTable_loop mcl ns last_code' (cs(element n := last_code')))"

text \<open>
  \<open>_buildTable\<close> reads the first leaf without a check: on an empty vector it dereferences
  the end iterator, which is the error \<open>InvalidDereference\<close> here.
\<close>

definition buildTable ::
  "nat \<Rightarrow> Leaf list \<Rightarrow> (byte \<Rightarrow> 'a::len word Code) \<Rightarrow> error + 'a word CodeTable" where
  "buildTable mcl leaves cs =
     (case leaves of
        [] \<Rightarrow> Inl InvalidDereference
      | n # ns \<Rightarrow>
          let last_code = CodeMake (depth n) 0 in
          (case buildTable_loop mcl ns last_code (cs(element n := last_code)) of
             Inl e \<Rightarrow> Inl e
           | Inr cs' \<Rightarrow> Inr \<lparr>info = \<lparr>max_codelength = depth n\<rparr>, codes = cs'\<rparr>))"

text \<open>The array after \<open>memset(_adaptee.codes, 0, ...)\<close>.\<close>

definition zero_codes :: "byte \<Rightarrow> 'a::len word Code" where
  "zero_codes = (\<lambda>_. \<lparr>codelength = 0, code = 0\<rparr>)"

section \<open>Construction from a length descriptor\<close>

text \<open>
  The constructor from \<open>(const char *file_data, size_t size)\<close>. The bytes of the descriptor
  are copied to \<open>unsigned char\<close>, which keeps their bits. The loop over the 256 symbols makes
  a leaf for every non-zero length and asserts that length to be below
  \<open>MAXIMUM_CODELENGTH\<close>; the construction fails when the assertion fails for some symbol.
\<close>

definition leaves_of_lengths :: "byte list \<Rightarrow> Leaf list" where
  "leaves_of_lengths lengths =
     map (\<lambda>i. \<lparr>element = word_of_nat i, depth = unat (lengths ! i)\<rparr>)
         (filter (\<lambda>i. lengths ! i > 0) [0..<ALPHABET_SIZE])"

definition CodeTableAdapter_lengths :: "nat \<Rightarrow> byte list \<Rightarrow> error + 'a::len word CodeTable" where
  "CodeTableAdapter_lengths mcl file_data =
     (if length file_data \<noteq> ALPHABET_SIZE then Inl AssertionFailed
      else if list_ex (\<lambda>i. file_data ! i > 0 \<and> \<not> unat (file_data ! i) < mcl) [0..<ALPHABET_SIZE]
      then Inl AssertionFailed
      else buildTable mcl (sort_by LeafComparator (leaves_of_lengths file_data)) zero_codes)"

section \<open>Construction from raw data\<close>

text \<open>
  \<open>_countFrequencies\<close>: the counters \<open>freqs\<close> are natural numbers (a counter is at most the
  size of the buffer, so a \<open>size_t\<close> does not wrap), and the symbols that occur are sorted
  by frequency.
\<close>

definition countFrequencies :: "byte list \<Rightarrow> Frequency list" where
  "countFrequencies data =
     (let freqs = foldl (\<lambda>f s. f(s := f s + 1)) (\<lambda>_. 0::nat) data
      in sort_by FrequencyComparator
           (map (\<lambda>i. FrequencyMake i (freqs i)) (filter (\<lambda>i. freqs i > 0) all_symbols)))"

text \<open>
  Modelled from the spec: the priority structure \<open>Tree\<close> (its type is declared in the
  absent header) is ordered by ascending frequency; an entry is inserted behind the
  entries of the same frequency.
\<close>

fun tree_insert :: "nat \<times> DepthCounterNode \<Rightarrow> Tree \<Rightarrow> Tree" where
  "tree_insert kv [] = [kv]"
| "tree_insert kv (x # xs) = (if fst kv < fst x then kv # x # xs else x # tree_insert kv xs)"

text \<open>
  \<open>_buildTree\<close>: the loop runs \<open>size - 1\<close> times, with \<open>size\<close> read once. Each round takes
  the two first entries; with fewer than two it would advance an iterator past the end.
\<close>

fun buildTree_loop :: "nat \<Rightarrow> Tree \<Rightarrow> error + Tree" where
  "buildTree_loop 0 tree = Inr tree"
| "buildTree_loop (Suc i) (first # second # rest) =
     buildTree_loop i
       (tree_insert (fst first + fst second, InnerNode (snd first) (snd second)) rest)"
| "buildTree_loop (Suc i) tree = Inl InvalidDereference"

definition buildTree :: "Tree \<Rightarrow> error + DepthCounterNode" where
  "buildTree tree =
     (case buildTree_loop (length tree - 1) tree of
        Inl e \<Rightarrow> Inl e
      | Inr [entry] \<Rightarrow> Inr (snd entry)
      | Inr _ \<Rightarrow> Inl AssertionFailed)"

text \<open>
  Modelled from the spec: the depth bookkeeping of \<open>DepthCounterNode\<close> (absent header).
  Walking from the root, every leaf gets its distance from the root. The depths of the
  leaves are kept in a store indexed by the leaf's symbol, since the vector \<open>leaves\<close>
  points to the very nodes the tree owns.
\<close>

fun assign_depths :: "DepthCounterNode \<Rightarrow> nat \<Rightarrow> (byte \<Rightarrow> nat) \<Rightarrow> (byte \<Rightarrow> nat)" where
  "assign_depths (LeafNode s) d m = m(s := d)"
| "assign_depths (InnerNode l r) d m = assign_depths r (Suc d) (assign_depths l (Suc d) m)"

definition leaves_of_frequencies :: "Frequency list \<Rightarrow> (byte \<Rightarrow> nat) \<Rightarrow> Leaf list" where
  "leaves_of_frequencies frequencies m =
     map (\<lambda>f. \<lparr>element = symbol f, depth = m (symbol f)\<rparr>) frequencies"

definition seed_tree :: "Frequency list \<Rightarrow> Tree" where
  "seed_tree frequencies =
     foldl (\<lambda>t f. tree_insert (frequency f, LeafNode (symbol f)) t) [] frequencies"

text \<open>
  The Resolver part of the constructor: everything before the final sort, giving the
  leaves with their depths. An empty tree makes \<open>tree.begin()\<close> the end iterator.
\<close>

definition resolve :: "byte list \<Rightarrow> error + Leaf list" where
  "resolve data =
     (let frequencies = countFrequencies data;
          tree = seed_tree frequencies
      in if length tree > 1 then
           (case buildTree tree of
              Inl e \<Rightarrow> Inl e
            | Inr root_node \<Rightarrow>
                Inr (leaves_of_frequencies frequencies (assign_depths root_node 0 (\<lambda>_. 0))))
         else
           (case tree of
              [] \<Rightarrow> Inl InvalidDereference
            | (f, LeafNode s) # _ \<Rightarrow> Inr (leaves_of_frequencies frequencies ((\<lambda>_. 0)(s := 1)))
            | (f, InnerNode l r) # _ \<Rightarrow> Inl AssertionFailed))"

definition CodeTableAdapter_data :: "nat \<Rightarrow> nat \<Rightarrow> byte list \<Rightarrow> error + 'a::len word CodeTable" where
  "CodeTableAdapter_data mcl mdb data =
     (if \<not> length data \<le> mdb then Inl AssertionFailed
      else
        (case resolve data of
           Inl e \<Rightarrow> Inl e
         | Inr leaves \<Rightarrow> buildTable mcl (sort_by LeafComparator leaves) zero_codes))"

section \<open>Query surface\<close>

text \<open>\<open>operator<<\<close> writes the 256 codelengths, one byte each.\<close>

definition write_lengths :: "'a::len word CodeTable \<Rightarrow> byte list" where
  "write_lengths table = map (\<lambda>s. word_of_nat (codelength (codes table s))) all_symbols"

text \<open>\<open>operator==\<close> compares the two code arrays entry by entry.\<close>

definition table_eq :: "'a::len word CodeTable \<Rightarrow> 'a word CodeTable \<Rightarrow> bool" where
  "table_eq left right \<longleftrightarrow> list_all (\<lambda>s. codes left s = codes right s) all_symbols"

section \<open>Encoding and decoding\<close>

text \<open>
  Modelled from the spec: the entropy encoder, which is not part of the sources. The
  codewords of the symbols are laid back to back, each pattern with its most significant
  of \<open>codelength\<close> bits first; the bit stream is cut into 32-bit words, the first bit of the
  stream being the most significant bit of the first word, and the last word is completed
  with zero bits, whose number is \<open>trailing_zero_bits\<close>.
\<close>

definition code_bits :: "'a::len word Code \<Rightarrow> bool list" where
  "code_bits c = map (\<lambda>i. bit (code c) (codelength c - 1 - i)) [0..<codelength c]"

definition encode_bits :: "'a::len word CodeTable \<Rightarrow> byte list \<Rightarrow> bool list" where
  "encode_bits table data = concat (map (\<lambda>s. code_bits (codes table s)) data)"

definition trailing_zero_bits :: "bool list \<Rightarrow> nat" where
  "trailing_zero_bits bits = (32 - length bits mod 32) mod 32"

definition word_of_bits :: "bool list \<Rightarrow> 32 word" where
  "word_of_bits bits = horner_sum of_bool 2 (rev bits)"

definition pack_words :: "bool list \<Rightarrow> 32 word list" where
  "pack_words bits =
     (let padded = bits @ replicate (trailing_zero_bits bits) False
      in map (\<lambda>k. word_of_bits (take 32 (drop (32 * k) padded))) [0..<length padded div 32])"

record EncodedBlocks =
  encoded_data :: "32 word list"
  encoded_data_trail_zeroes :: nat
  block_int_size :: nat
  block_bit_offsets :: "nat list"
  block_sym_sizes :: "nat list"
  block_count :: nat

text \<open>The whole data as a single block: it starts at bit offset 0 of the first word and
  holds all symbols.\<close>

definition encode_single_block :: "'a::len word CodeTable \<Rightarrow> byte list \<Rightarrow> EncodedBlocks" where
  "encode_single_block table data =
     (let bits = encode_bits table data; ws = pack_words bits
      in \<lparr>encoded_data = ws, encoded_data_trail_zeroes = trailing_zero_bits bits,
          block_int_size = length ws, block_bit_offsets = [0],
          block_sym_sizes = [length data], block_count = 1\<rparr>)"

text \<open>
  Modelled from the spec: \<open>CPU::Decode\<close>, of which the sources hold only the declaration
  (\<open>test/cpu_decode.hpp\<close>). One symbol is matched by reading bits one at a time, most
  significant first, and testing the bits read so far against the assigned codes, for at
  most \<open>max_codelength\<close> bits; no match within that many bits, or the end of the stream,
  is the corrupt-stream error.
\<close>

fun match_code ::
  "'a::len word CodeTable \<Rightarrow> nat \<Rightarrow> 'a word \<Rightarrow> nat \<Rightarrow> bool list \<Rightarrow> error + byte \<times> bool list" where
  "match_code table 0 acc len bits = Inl CorruptStream"
| "match_code table (Suc fuel) acc len [] = Inl CorruptStream"
| "match_code table (Suc fuel) acc len (b # bits) =
     (let acc' = 2 * acc + of_bool b; len' = Suc len in
      case find (\<lambda>s. codelength (codes table s) = len' \<and> code (codes table s) = acc')
             all_symbols of
        Some s \<Rightarrow> Inr (s, bits)
      | None \<Rightarrow> match_code table fuel acc' len' bits)"

definition decode_symbol :: "'a::len word CodeTable \<Rightarrow> bool list \<Rightarrow> error + byte \<times> bool list" where
  "decode_symbol table bits = match_code table (max_codelength (info table)) 0 0 bits"

text \<open>A block: exactly \<open>n\<close> symbols from the bits at its start.\<close>

fun decode_symbols :: "'a::len word CodeTable \<Rightarrow> nat \<Rightarrow> bool list \<Rightarrow> error + byte list" where
  "decode_symbols table 0 bits = Inr []"
| "decode_symbols table (Suc n) bits =
     (case decode_symbol table bits of
        Inl e \<Rightarrow> Inl e
      | Inr (s, rest) \<Rightarrow>
          (case decode_symbols table n rest of
             Inl e \<Rightarrow> Inl e
           | Inr out \<Rightarrow> Inr (s # out)))"

definition bits_of_word :: "32 word \<Rightarrow> bool list" where
  "bits_of_word w = map (\<lambda>i. bit w (31 - i)) [0..<32]"

definition words_bits :: "32 word list \<Rightarrow> bool list" where
  "words_bits ws = concat (map bits_of_word ws)"

text \<open>
  The blocks in order. Block \<open>i\<close> starts at bit \<open>i * block_int_size * 32 + block_bit_offsets[i]\<close>
  of the stream and yields \<open>block_sym_sizes[i]\<close> bytes, which follow the bytes of the
  blocks before it. The trailing zero bits are not part of the stream.
\<close>

fun decode_blocks ::
  "'a::len word CodeTable \<Rightarrow> bool list \<Rightarrow> nat \<Rightarrow> nat list \<Rightarrow> nat list \<Rightarrow> nat \<Rightarrow> nat \<Rightarrow>
     error + byte list" where
  "decode_blocks table stream bsize offsets sizes i 0 = Inr []"
| "decode_blocks table stream bsize offsets sizes i (Suc remaining) =
     (if \<not> (i < length offsets \<and> i < length sizes) then Inl InvalidDereference
      else
        (case decode_symbols table (sizes ! i) (drop (i * bsize * 32 + offsets ! i) stream) of
           Inl e \<Rightarrow> Inl e
         | Inr out \<Rightarrow>
             (case decode_blocks table stream bsize offsets sizes (Suc i) remaining of
                Inl e \<Rightarrow> Inl e
              | Inr others \<Rightarrow> Inr (out @ others))))"

definition Decode :: "'a::len word CodeTable \<Rightarrow> EncodedBlocks \<Rightarrow> error + byte list" where
  "Decode table enc =
     (let bits = words_bits (encoded_data enc);
          stream = take (length bits - encoded_data_trail_zeroes enc) bits
      in decode_blocks table stream (block_int_size enc) (block_bit_offsets enc)
           (block_sym_sizes enc) 0 (block_count enc))"

text \<open>Building a table from the data, encoding the data with it as a single block, and
  decoding that block with the same table.\<close>

definition roundtrip :: "nat \<Rightarrow> nat \<Rightarrow> byte list \<Rightarrow> error + byte list" where
  "roundtrip mcl mdb data =
     (case (CodeTableAdapter_data mcl mdb data :: error + 32 word CodeTable) of
        Inl e \<Rightarrow> Inl e
      | Inr table \<Rightarrow> Decode table (encode_single_block table data))"

section \<open>Notions used in the statements\<close>

text \<open>The sequence of values that \<open>last_code\<close> takes while the loop walks the leaves.\<close>

fun code_walk :: "'a::len word Code \<Rightarrow> Leaf list \<Rightarrow> 'a word Code list" where
  "code_walk last_code [] = []"
| "code_walk last_code (n # ns) = next_code last_code n # code_walk (next_code last_code n) ns"

definition assigned_codes :: "Leaf list \<Rightarrow> 'a::len word Code list" where
  "assigned_codes leaves =
     (case leaves of [] \<Rightarrow> []
      | n # ns \<Rightarrow> CodeMake (depth n) 0 # code_walk (CodeMake (depth n) 0) ns)"

text \<open>Writing the codes of a walk into the array, in order.\<close>

fun write_codes ::
  "Leaf list \<Rightarrow> 'w Code list \<Rightarrow> (byte \<Rightarrow> 'w Code) \<Rightarrow> (byte \<Rightarrow> 'w Code)" where
  "write_codes (n # ns) (c # cs') cs = write_codes ns cs' (cs(element n := c))"
| "write_codes _ _ cs = cs"

text \<open>Depths that never increase along the list, starting below \<open>l\<close>.\<close>

fun descending :: "nat \<Rightarrow> Leaf list \<Rightarrow> bool" where
  "descending l [] = True"
| "descending l (n # ns) = (depth n \<le> l \<and> descending (depth n) ns)"

text \<open>The left side of Kraft's inequality for a list of leaves.\<close>

definition kraft_sum :: "Leaf list \<Rightarrow> real" where
  "kraft_sum leaves = (\<Sum>n\<leftarrow>leaves. 1 / 2 ^ depth n)"

text \<open>
  Code \<open>a\<close> is a bit-prefix of code \<open>b\<close>: the first \<open>codelength a\<close> bits of \<open>b\<close>'s pattern,
  read from the most significant of its \<open>codelength b\<close> bits, are \<open>a\<close>'s pattern.
\<close>

definition is_prefix :: "'a::len word Code \<Rightarrow> 'a word Code \<Rightarrow> bool" where
  "is_prefix a b \<longleftrightarrow>
     codelength a \<le> codelength b \<and> drop_bit (codelength b - codelength a) (code b) = code a"

text \<open>The leaves of a tree from left to right: their symbols, and the symbols with the
  distance from a root that sits at depth \<open>d\<close>.\<close>

fun leaf_symbols :: "DepthCounterNode \<Rightarrow> byte list" where
  "leaf_symbols (LeafNode s) = [s]"
| "leaf_symbols (InnerNode l r) = leaf_symbols l @ leaf_symbols r"

fun leaf_depths :: "DepthCounterNode \<Rightarrow> nat \<Rightarrow> (byte \<times> nat) list" where
  "leaf_depths (LeafNode s) d = [(s, d)]"
| "leaf_depths (InnerNode l r) d = leaf_depths l (Suc d) @ leaf_depths r (Suc d)"

fun height :: "DepthCounterNode \<Rightarrow> nat" where
  "height (LeafNode s) = 0"
| "height (InnerNode l r) = Suc (max (height l) (height r))"

definition forest_symbols :: "Tree \<Rightarrow> byte list" where
  "forest_symbols tree = concat (map (\<lambda>entry. leaf_symbols (snd entry)) tree)"

text \<open>Kraft's sum of a list of leaves, scaled by \<open>2^l\<close> for a length \<open>l\<close> that bounds the
  depths, which makes it a natural number.\<close>

definition kraft_scaled :: "nat \<Rightarrow> Leaf list \<Rightarrow> nat" where
  "kraft_scaled l ns = (\<Sum>n\<leftarrow>ns. 2 ^ (l - depth n))"

text \<open>
  Code \<open>x\<close> lies wholly before code \<open>y\<close>: \<open>y\<close> is not longer than \<open>x\<close>, and padded to the
  length of \<open>x\<close> the pattern of \<open>y\<close> starts behind the pattern of \<open>x\<close>.
\<close>

definition precedes :: "'a::len word Code \<Rightarrow> 'a word Code \<Rightarrow> bool" where
  "precedes x y \<longleftrightarrow>
     codelength y \<le> codelength x \<and>
     unat (code x) + 1 \<le> unat (code y) * 2 ^ (codelength x - codelength y)"

section \<open>Sorting with a comparator\<close>

lemma mset_insert_by: "mset (insert_by lt x ys) = add_mset x (mset ys)"
  by (induction ys) auto

lemma mset_sort_by: "mset (sort_by lt xs) = mset xs"
  by (induction xs) (auto simp: sort_by_def mset_insert_by)

lemma set_sort_by: "set (sort_by lt xs) = set xs"
  using mset_sort_by [of lt xs] by (metis set_mset_mset)

lemma length_sort_by: "length (sort_by lt xs) = length xs"
  using mset_sort_by [of lt xs] by (metis size_mset)

lemma sorted_insert_by:
  assumes tr: "\<And>a b c. lt a b \<Longrightarrow> lt b c \<Longrightarrow> lt a c"
    and tot: "\<And>a b. a \<noteq> b \<Longrightarrow> lt a b \<or> lt b a"
  shows "sorted_wrt lt ys \<Longrightarrow> x \<notin> set ys \<Longrightarrow> sorted_wrt lt (insert_by lt x ys)"
proof (induction ys)
  case Nil
  then show ?case by simp
next
  case (Cons y ys)
  show ?case
  proof (cases "lt y x")
    case True
    have "sorted_wrt lt (insert_by lt x ys)" using Cons by simp
    moreover have "\<forall>z\<in>set (insert_by lt x ys). lt y z"
      using Cons.prems True by (metis mset_insert_by set_mset_add_mset_insert set_mset_mset insertE sorted_wrt.simps(2))
    ultimately show ?thesis using True by simp
  next
    case False
    then have xy: "lt x y" using tot [of x y] Cons.prems by auto
    then have "\<forall>z\<in>set ys. lt x z" using Cons.prems tr by auto
    then show ?thesis using False xy Cons.prems by simp
  qed
qed

lemma sorted_sort_by:
  assumes tr: "\<And>a b c. lt a b \<Longrightarrow> lt b c \<Longrightarrow> lt a c"
    and tot: "\<And>a b. a \<noteq> b \<Longrightarrow> lt a b \<or> lt b a"
  shows "distinct xs \<Longrightarrow> sorted_wrt lt (sort_by lt xs)"
proof (induction xs)
  case Nil
  then show ?case by (simp add: sort_by_def)
next
  case (Cons x xs)
  have "sorted_wrt lt (sort_by lt xs)" using Cons by simp
  moreover have "x \<notin> set (sort_by lt xs)" using Cons.prems by (simp add: set_sort_by)
  ultimately have "sorted_wrt lt (insert_by lt x (sort_by lt xs))"
    by (intro sorted_insert_by) (blast intro: tr dest: tot)+
  then show ?case by (simp add: sort_by_def)
qed

lemma sorted_wrt_unique:
  assumes irr: "\<And>a. \<not> lt a a" and tr: "\<And>a b c. lt a b \<Longrightarrow> lt b c \<Longrightarrow> lt a c"
  shows "sorted_wrt lt xs \<Longrightarrow> sorted_wrt lt ys \<Longrightarrow> set xs = set ys \<Longrightarrow> xs = ys"
proof (induction xs arbitrary: ys)
  case Nil
  then show ?case by simp
next
  case (Cons x xs)
  then obtain y ys' where ys: "ys = y # ys'" by (cases ys) auto
  have xy: "x = y"
  proof (rule ccontr)
    assume ne: "x \<noteq> y"
    have "x \<in> set ys'" using Cons.prems(3) ne ys by auto
    then have "lt y x" using Cons.prems(2) ys by auto
    moreover have "y \<in> set xs" using Cons.prems(3) ne ys by auto
    then have "lt x y" using Cons.prems(1) by auto
    ultimately show False using irr tr by blast
  qed
  have "x \<notin> set xs" using Cons.prems(1) irr by auto
  moreover have "y \<notin> set ys'" using Cons.prems(2) ys irr by auto
  ultimately have "set xs = set ys'" using Cons.prems(3) ys xy by auto
  then have "xs = ys'" using Cons.IH [of ys'] Cons.prems ys by simp
  then show ?case using xy ys by simp
qed

lemma LeafComparator_irrefl: "\<not> LeafComparator a a"
  by (simp add: LeafComparator_def)

lemma LeafComparator_trans: "LeafComparator a b \<Longrightarrow> LeafComparator b c \<Longrightarrow> LeafComparator a c"
  by (auto simp: LeafComparator_def)

lemma LeafComparator_total: "a \<noteq> b \<Longrightarrow> LeafComparator a b \<or> LeafComparator b a"
  by (cases a, cases b) (auto simp: LeafComparator_def)

lemma sorted_leaves: "distinct xs \<Longrightarrow> sorted_wrt LeafComparator (sort_by LeafComparator xs)"
  by (intro sorted_sort_by) (blast intro: LeafComparator_trans dest: LeafComparator_total)+

lemma sort_leaves_unique:
  "distinct xs \<Longrightarrow> distinct ys \<Longrightarrow> set xs = set ys \<Longrightarrow>
   sort_by LeafComparator xs = sort_by LeafComparator ys"
proof (rule sorted_wrt_unique [of LeafComparator])
  show "\<not> LeafComparator a a" for a by (rule LeafComparator_irrefl)
  show "LeafComparator a b \<Longrightarrow> LeafComparator b c \<Longrightarrow> LeafComparator a c" for a b c
    by (rule LeafComparator_trans)
qed (simp_all add: sorted_leaves set_sort_by)

section \<open>What the table builder returns\<close>

lemma codelength_next_code [simp]: "codelength (next_code c n) = depth n"
  by (simp add: next_code_def)

lemma length_code_walk [simp]: "length (code_walk c ns) = length ns"
  by (induction ns arbitrary: c) auto

lemma length_assigned_codes [simp]: "length (assigned_codes ls) = length ls"
  by (cases ls) (auto simp: assigned_codes_def)

lemma codelength_code_walk: "map codelength (code_walk c ns) = map depth ns"
  by (induction ns arbitrary: c) auto

lemma codelength_assigned_codes: "map codelength (assigned_codes ls) = map depth ls"
  by (cases ls) (auto simp: assigned_codes_def CodeMake_def codelength_code_walk)

lemma codelength_assigned_nth:
  "i < length ls \<Longrightarrow> codelength (assigned_codes ls ! i) = depth (ls ! i)"
  using codelength_assigned_codes [of ls]
  by (metis length_assigned_codes nth_map)

lemma buildTable_loop_iff:
  "buildTable_loop mcl ns last_code cs = Inr cs' \<longleftrightarrow>
     descending (codelength last_code) ns \<and> (\<forall>n\<in>set ns. depth n < mcl) \<and>
     cs' = write_codes ns (code_walk last_code ns) cs"
proof (induction ns arbitrary: last_code cs)
  case Nil
  then show ?case by auto
next
  case (Cons n ns)
  show ?case
  proof (cases "depth n \<le> codelength last_code \<and> depth n < mcl")
    case True
    then have step: "buildTable_loop mcl (n # ns) last_code cs =
      buildTable_loop mcl ns (next_code last_code n) (cs(element n := next_code last_code n))"
      by (auto simp: Let_def)
    have "buildTable_loop mcl (n # ns) last_code cs = Inr cs' \<longleftrightarrow>
      descending (codelength (next_code last_code n)) ns \<and> (\<forall>n\<in>set ns. depth n < mcl) \<and>
      cs' = write_codes ns (code_walk (next_code last_code n) ns)
              (cs(element n := next_code last_code n))"
      unfolding step by (rule Cons.IH)
    then show ?thesis using True by (simp del: fun_upd_apply)
  next
    case False
    then show ?thesis by (auto simp: Let_def)
  qed
qed

lemma buildTable_iff:
  "buildTable mcl leaves cs = Inr t \<longleftrightarrow>
     leaves \<noteq> [] \<and> descending (depth (hd leaves)) (tl leaves) \<and>
     (\<forall>n\<in>set (tl leaves). depth n < mcl) \<and>
     t = \<lparr>info = \<lparr>max_codelength = depth (hd leaves)\<rparr>,
          codes = write_codes leaves (assigned_codes leaves) cs\<rparr>"
proof (cases leaves)
  case Nil
  then show ?thesis by (simp add: buildTable_def)
next
  case (Cons n ns)
  let ?c = "CodeMake (depth n) 0 :: 'a word Code"
  have cl: "codelength ?c = depth n" by (simp add: CodeMake_def)
  show ?thesis
  proof (cases "buildTable_loop mcl ns ?c (cs(element n := ?c))")
    case (Inl e)
    then have "\<not> (descending (depth n) ns \<and> (\<forall>n\<in>set ns. depth n < mcl))"
      using buildTable_loop_iff [of mcl ns ?c "cs(element n := ?c)"] cl by auto
    then show ?thesis using Inl Cons by (auto simp: buildTable_def Let_def)
  next
    case (Inr cs')
    then have "descending (depth n) ns \<and> (\<forall>n\<in>set ns. depth n < mcl) \<and>
      cs' = write_codes ns (code_walk ?c ns) (cs(element n := ?c))"
      using buildTable_loop_iff [of mcl ns ?c "cs(element n := ?c)" cs'] cl by simp
    then show ?thesis using Inr Cons
      by (auto simp: buildTable_def Let_def assigned_codes_def)
  qed
qed

lemma write_codes_other:
  "s \<notin> element ` set ns \<Longrightarrow> write_codes ns cw cs s = cs s"
proof (induction ns cw cs rule: write_codes.induct)
  case (1 n ns c cs' cs)
  then have "write_codes ns cs' (cs(element n := c)) s = (cs(element n := c)) s"
    by (simp del: fun_upd_apply)
  then show ?case using "1.prems" by simp
qed auto

lemma write_codes_nth:
  "distinct (map element ns) \<Longrightarrow> length cw = length ns \<Longrightarrow> i < length ns \<Longrightarrow>
   write_codes ns cw cs (element (ns ! i)) = cw ! i"
proof (induction ns cw cs arbitrary: i rule: write_codes.induct)
  case (1 n ns c cs' cs)
  show ?case
  proof (cases i)
    case 0
    have "write_codes ns cs' (cs(element n := c)) (element n) = (cs(element n := c)) (element n)"
      using "1.prems" by (intro write_codes_other) simp
    then show ?thesis using 0 by simp
  next
    case (Suc j)
    have "write_codes ns cs' (cs(element n := c)) (element (ns ! j)) = cs' ! j"
      using "1.prems" Suc by (intro "1.IH") simp_all
    then show ?thesis using Suc by simp
  qed
qed auto

lemma write_codes_cases:
  "length cw = length ns \<Longrightarrow>
   write_codes ns cw cs s = cs s \<or>
   (\<exists>i<length ns. element (ns ! i) = s \<and> write_codes ns cw cs s = cw ! i)"
proof (induction ns cw cs rule: write_codes.induct)
  case (1 n ns c cs' cs)
  then have "write_codes ns cs' (cs(element n := c)) s = (cs(element n := c)) s \<or>
    (\<exists>i<length ns. element (ns ! i) = s \<and> write_codes ns cs' (cs(element n := c)) s = cs' ! i)"
    by (simp del: fun_upd_apply)
  then show ?case
  proof
    assume a: "write_codes ns cs' (cs(element n := c)) s = (cs(element n := c)) s"
    show ?thesis
    proof (cases "element n = s")
      case True
      then have "element ((n # ns) ! 0) = s \<and> write_codes (n # ns) (c # cs') cs s = (c # cs') ! 0"
        using a by simp
      then show ?thesis by blast
    next
      case False
      then show ?thesis using a by simp
    qed
  next
    assume "\<exists>i<length ns. element (ns ! i) = s \<and> write_codes ns cs' (cs(element n := c)) s = cs' ! i"
    then obtain i where "i < length ns" "element (ns ! i) = s"
      "write_codes ns cs' (cs(element n := c)) s = cs' ! i" by blast
    then have "Suc i < length (n # ns) \<and> element ((n # ns) ! Suc i) = s \<and>
      write_codes (n # ns) (c # cs') cs s = (c # cs') ! Suc i" by simp
    then show ?thesis by blast
  qed
qed auto

lemma descending_sorted:
  "sorted_wrt (\<lambda>a b. depth b \<le> depth a) ns \<Longrightarrow> \<forall>n\<in>set ns. depth n \<le> l \<Longrightarrow> descending l ns"
  by (induction ns arbitrary: l) auto

lemma descending_imp_sorted:
  "descending l ns \<Longrightarrow> sorted_wrt (\<lambda>a b. depth b \<le> depth a) ns \<and> (\<forall>n\<in>set ns. depth n \<le> l)"
proof (induction ns arbitrary: l)
  case Nil
  then show ?case by simp
next
  case (Cons n ns)
  have "sorted_wrt (\<lambda>a b. depth b \<le> depth a) ns \<and> (\<forall>m\<in>set ns. depth m \<le> depth n)"
    using Cons.IH [of "depth n"] Cons.prems by simp
  then show ?case using Cons.prems by fastforce
qed

lemma LeafComparator_depth: "LeafComparator a b \<Longrightarrow> depth b \<le> depth a"
  by (auto simp: LeafComparator_def)

lemma sorted_leaves_descending:
  assumes "sorted_wrt LeafComparator ls" "ls \<noteq> []"
  shows "descending (depth (hd ls)) (tl ls)"
proof -
  have "sorted_wrt (\<lambda>a b. depth b \<le> depth a) ls"
    using assms(1) by (rule sorted_wrt_mono_rel [rotated]) (simp add: LeafComparator_depth)
  then show ?thesis using assms(2) by (cases ls) (auto intro: descending_sorted)
qed

section \<open>The leaves of a length descriptor\<close>

lemma unat_byte_of_nat: "i < 256 \<Longrightarrow> unat (word_of_nat i :: byte) = i"
  by (simp add: unat_of_nat)

lemma unat_byte_less: "unat (s :: byte) < 256"
  using unsigned_less [of s, where 'a = nat] by simp

lemma set_all_symbols: "set all_symbols = UNIV"
proof -
  have "s \<in> set all_symbols" for s :: byte
  proof -
    have "unat s < 256" by (rule unat_byte_less)
    moreover have "word_of_nat (unat s) = s" by simp
    ultimately show ?thesis
      unfolding all_symbols_def ALPHABET_SIZE_def by (metis atLeast0LessThan imageI lessThan_iff set_map set_upt)
  qed
  then show ?thesis by blast
qed

lemma distinct_all_symbols: "distinct all_symbols"
proof -
  have "inj_on (word_of_nat :: nat \<Rightarrow> byte) (set [0..<256])"
    by (rule inj_onI) (metis atLeastLessThan_iff set_upt unat_byte_of_nat)
  then show ?thesis by (simp add: all_symbols_def ALPHABET_SIZE_def distinct_map)
qed

lemma ex_byte_index: "(\<exists>i<256. P i) \<longleftrightarrow> (\<exists>s::byte. P (unat s))"
proof
  assume "\<exists>i<256. P i"
  then obtain i where "i < 256" "P i" by blast
  then have "P (unat (word_of_nat i :: byte))" by (simp add: unat_byte_of_nat)
  then show "\<exists>s::byte. P (unat s)" by blast
next
  assume "\<exists>s::byte. P (unat s)"
  then obtain s :: byte where "P (unat s)" by blast
  moreover have "unat s < 256" by (rule unat_byte_less)
  ultimately show "\<exists>i<256. P i" by blast
qed

lemma leaves_of_lengths_alt:
  "leaves_of_lengths fd =
     map (\<lambda>s. \<lparr>element = s, depth = unat (fd ! unat s)\<rparr>)
         (filter (\<lambda>s. fd ! unat s \<noteq> 0) all_symbols)"
proof -
  have "filter (\<lambda>s. fd ! unat s \<noteq> 0) all_symbols =
        map word_of_nat (filter (\<lambda>i. fd ! i > 0) [0..<ALPHABET_SIZE])"
    unfolding all_symbols_def filter_map
    by (rule arg_cong [where f = "map word_of_nat"], rule filter_cong)
       (auto simp: ALPHABET_SIZE_def unat_byte_of_nat word_gt_0)
  moreover have "map (\<lambda>s. \<lparr>element = s, depth = unat (fd ! unat s)\<rparr>)
          (map word_of_nat (filter (\<lambda>i. fd ! i > 0) [0..<ALPHABET_SIZE])) =
        map (\<lambda>i. \<lparr>element = word_of_nat i, depth = unat (fd ! i)\<rparr>)
          (filter (\<lambda>i. fd ! i > 0) [0..<ALPHABET_SIZE])"
    by (auto simp: ALPHABET_SIZE_def unat_byte_of_nat)
  ultimately show ?thesis by (simp add: leaves_of_lengths_def)
qed

lemma elements_leaves_of_lengths:
  "map element (leaves_of_lengths fd) = filter (\<lambda>s. fd ! unat s \<noteq> 0) all_symbols"
  by (simp add: leaves_of_lengths_alt comp_def)

lemma distinct_elements_leaves_of_lengths: "distinct (map element (leaves_of_lengths fd))"
  by (simp add: elements_leaves_of_lengths distinct_all_symbols)

lemma set_leaves_of_lengths:
  "set (leaves_of_lengths fd) =
     {\<lparr>element = s, depth = unat (fd ! unat s)\<rparr> | s::byte. fd ! unat s \<noteq> 0}"
  by (auto simp: leaves_of_lengths_alt set_all_symbols)

lemma distinct_map_sort_by: "distinct (map f (sort_by lt xs)) = distinct (map f xs)"
proof -
  have "mset (map f (sort_by lt xs)) = mset (map f xs)" by (simp add: mset_sort_by)
  then show ?thesis by (rule mset_eq_imp_distinct_iff)
qed

lemma distinct_sort_by: "distinct (sort_by lt xs) = distinct xs"
  using distinct_map_sort_by [of id lt xs] by simp

lemma CodeTableAdapter_lengths_iff:
  "CodeTableAdapter_lengths mcl fd = Inr t \<longleftrightarrow>
     length fd = ALPHABET_SIZE \<and>
     (\<forall>s::byte. fd ! unat s \<noteq> 0 \<longrightarrow> unat (fd ! unat s) < mcl) \<and>
     buildTable mcl (sort_by LeafComparator (leaves_of_lengths fd)) zero_codes = Inr t"
proof -
  have "list_ex (\<lambda>i. fd ! i > 0 \<and> \<not> unat (fd ! i) < mcl) [0..<ALPHABET_SIZE] \<longleftrightarrow>
        (\<exists>i<256. fd ! i \<noteq> 0 \<and> \<not> unat (fd ! i) < mcl)"
    by (auto simp: list_ex_iff ALPHABET_SIZE_def word_gt_0)
  also have "\<dots> \<longleftrightarrow> (\<exists>s::byte. fd ! unat s \<noteq> 0 \<and> \<not> unat (fd ! unat s) < mcl)"
    by (rule ex_byte_index)
  finally have "list_ex (\<lambda>i. fd ! i > 0 \<and> \<not> unat (fd ! i) < mcl) [0..<ALPHABET_SIZE] \<longleftrightarrow>
      \<not> (\<forall>s::byte. fd ! unat s \<noteq> 0 \<longrightarrow> unat (fd ! unat s) < mcl)" by blast
  then show ?thesis unfolding CodeTableAdapter_lengths_def by auto
qed

lemma code_walk_nth:
  "i < length ns \<Longrightarrow>
   (c # code_walk c ns) ! Suc i = next_code ((c # code_walk c ns) ! i) (ns ! i)"
proof (induction ns arbitrary: c i)
  case Nil
  then show ?case by simp
next
  case (Cons n ns)
  show ?case
  proof (cases i)
    case 0
    then show ?thesis by simp
  next
    case (Suc j)
    then show ?thesis using Cons.IH [of j "next_code c n"] Cons.prems by simp
  qed
qed

lemma assigned_codes_0:
  "ls \<noteq> [] \<Longrightarrow> assigned_codes ls ! 0 = CodeMake (depth (ls ! 0)) 0"
  by (cases ls) (auto simp: assigned_codes_def)

lemma assigned_codes_Suc:
  "Suc i < length ls \<Longrightarrow>
   assigned_codes ls ! Suc i = next_code (assigned_codes ls ! i) (ls ! Suc i)"
proof (cases ls)
  case Nil
  assume "Suc i < length ls"
  then show ?thesis using Nil by simp
next
  case (Cons n ns)
  assume "Suc i < length ls"
  then have "i < length ns" using Cons by simp
  then show ?thesis using Cons code_walk_nth [of i ns "CodeMake (depth n) 0"]
    by (simp add: assigned_codes_def)
qed

lemma sorted_lengths_nonempty:
  "(\<exists>b\<in>set fd. b \<noteq> 0) \<Longrightarrow> length fd = ALPHABET_SIZE \<Longrightarrow>
   sort_by LeafComparator (leaves_of_lengths fd) \<noteq> []"
proof -
  assume ex: "\<exists>b\<in>set fd. b \<noteq> 0" and len: "length fd = ALPHABET_SIZE"
  then obtain i where "i < 256" "fd ! i \<noteq> 0"
    by (metis ALPHABET_SIZE_def in_set_conv_nth)
  then have "\<exists>s::byte. fd ! unat s \<noteq> 0" using ex_byte_index [of "\<lambda>i. fd ! i \<noteq> 0"] by blast
  then have "set (leaves_of_lengths fd) \<noteq> {}" by (simp add: set_leaves_of_lengths)
  then have "set (sort_by LeafComparator (leaves_of_lengths fd)) \<noteq> {}" by (simp add: set_sort_by)
  then show ?thesis by auto
qed

lemma byte_index_in_set:
  "length fd = ALPHABET_SIZE \<Longrightarrow> fd ! unat (s :: byte) \<in> set fd"
  using unat_byte_less [of s] by (simp add: ALPHABET_SIZE_def)

section \<open>The canonical assignment\<close>

text \<open>
  Claim C1 (canonical code assignment). For a length descriptor with at least one used
  symbol and every used length below \<open>MAXIMUM_CODELENGTH\<close>, construction succeeds; the
  builder walks the (symbol, length) pairs sorted by \<open>_LeafComparator\<close> (longer first,
  and for equal length the smaller symbol first); the first pair gets pattern 0 at its
  length; every later pair gets the previous pattern plus 1 when the lengths agree, and
  the previous pattern plus 1 shifted right by the difference of the lengths otherwise,
  with its own length.
\<close>

theorem canonical_code_assignment:
  fixes file_data :: "byte list" and mcl :: nat
  assumes len: "length file_data = ALPHABET_SIZE"
    and rng: "\<forall>b\<in>set file_data. b \<noteq> 0 \<longrightarrow> unat b < mcl"
    and ne: "\<exists>b\<in>set file_data. b \<noteq> 0"
  shows "\<exists>(t :: 'a::len word CodeTable) ls.
    CodeTableAdapter_lengths mcl file_data = Inr t \<and>
    ls = sort_by LeafComparator (leaves_of_lengths file_data) \<and>
    ls \<noteq> [] \<and>
    set ls = {\<lparr>element = s, depth = unat (file_data ! unat s)\<rparr> | s. file_data ! unat s \<noteq> 0} \<and>
    distinct (map element ls) \<and>
    sorted_wrt LeafComparator ls \<and>
    (\<forall>i j. i < j \<and> j < length ls \<longrightarrow>
       depth (ls ! j) \<le> depth (ls ! i) \<and>
       (depth (ls ! j) = depth (ls ! i) \<longrightarrow> element (ls ! i) < element (ls ! j))) \<and>
    codes t (element (ls ! 0)) = \<lparr>codelength = depth (ls ! 0), code = 0\<rparr> \<and>
    (\<forall>i. Suc i < length ls \<longrightarrow>
       codes t (element (ls ! Suc i)) =
         \<lparr>codelength = depth (ls ! Suc i),
          code = (if depth (ls ! Suc i) = depth (ls ! i)
                  then code (codes t (element (ls ! i))) + 1
                  else drop_bit (depth (ls ! i) - depth (ls ! Suc i))
                         (code (codes t (element (ls ! i))) + 1))\<rparr>)"
proof -
  define ls where "ls = sort_by LeafComparator (leaves_of_lengths file_data)"
  define t :: "'a word CodeTable" where
    "t = \<lparr>info = \<lparr>max_codelength = depth (hd ls)\<rparr>,
          codes = write_codes ls (assigned_codes ls) zero_codes\<rparr>"
  have ne_ls: "ls \<noteq> []" unfolding ls_def using ne len by (rule sorted_lengths_nonempty)
  have set_ls: "set ls = {\<lparr>element = s, depth = unat (file_data ! unat s)\<rparr> | s.
      file_data ! unat s \<noteq> 0}"
    by (simp add: ls_def set_sort_by set_leaves_of_lengths)
  have dist_el: "distinct (map element ls)"
    by (simp add: ls_def distinct_map_sort_by distinct_elements_leaves_of_lengths)
  then have "distinct ls" by (rule distinct_map [THEN iffD1, THEN conjunct1])
  have sorted: "sorted_wrt LeafComparator ls"
    unfolding ls_def
    using distinct_elements_leaves_of_lengths [of file_data]
    by (intro sorted_leaves) (simp add: distinct_map)
  have desc: "descending (depth (hd ls)) (tl ls)"
    using sorted ne_ls by (rule sorted_leaves_descending)
  have order: "depth (ls ! j) \<le> depth (ls ! i) \<and>
       (depth (ls ! j) = depth (ls ! i) \<longrightarrow> element (ls ! i) < element (ls ! j))"
    if "i < j \<and> j < length ls" for i j
  proof -
    have "LeafComparator (ls ! i) (ls ! j)"
      using sorted that by (simp add: sorted_wrt_iff_nth_less)
    then show ?thesis by (auto simp: LeafComparator_def)
  qed
  have rng': "\<forall>s::byte. file_data ! unat s \<noteq> 0 \<longrightarrow> unat (file_data ! unat s) < mcl"
    using rng len byte_index_in_set by blast
  then have below: "\<forall>n\<in>set ls. depth n < mcl" using set_ls by auto
  then have "\<forall>n\<in>set (tl ls). depth n < mcl" using ne_ls by (metis list.set_sel(2))
  then have "buildTable mcl ls zero_codes = Inr t"
    using ne_ls desc by (simp add: buildTable_iff t_def)
  then have built: "CodeTableAdapter_lengths mcl file_data = Inr t"
    using len rng' by (simp add: CodeTableAdapter_lengths_iff ls_def)
  have at: "codes t (element (ls ! i)) = assigned_codes ls ! i" if "i < length ls" for i
    using that dist_el by (simp add: t_def write_codes_nth)
  have first: "codes t (element (ls ! 0)) = \<lparr>codelength = depth (ls ! 0), code = 0\<rparr>"
    using ne_ls at [of 0] by (simp add: assigned_codes_0 CodeMake_def)
  have later: "codes t (element (ls ! Suc i)) =
         \<lparr>codelength = depth (ls ! Suc i),
          code = (if depth (ls ! Suc i) = depth (ls ! i)
                  then code (codes t (element (ls ! i))) + 1
                  else drop_bit (depth (ls ! i) - depth (ls ! Suc i))
                         (code (codes t (element (ls ! i))) + 1))\<rparr>"
    if "Suc i < length ls" for i
  proof -
    have "codes t (element (ls ! Suc i)) = next_code (codes t (element (ls ! i))) (ls ! Suc i)"
      using that at [of i] at [of "Suc i"] by (simp add: assigned_codes_Suc)
    moreover have "codelength (codes t (element (ls ! i))) = depth (ls ! i)"
      using that at [of i] by (simp add: codelength_assigned_nth)
    ultimately show ?thesis by (simp add: next_code_def)
  qed
  show ?thesis
    using built ne_ls set_ls dist_el sorted order first later unfolding ls_def by blast
qed

theorem canonical_code_assignment_witness:
  "length (replicate 65 0 @ [1, 2, 2] @ replicate 188 (0::byte)) = ALPHABET_SIZE \<and>
   list_all (\<lambda>b. b = 0 \<or> unat b < 32) (replicate 65 0 @ [1, 2, 2] @ replicate 188 (0::byte)) \<and>
   list_ex (\<lambda>b. b \<noteq> 0) (replicate 65 0 @ [1, 2, 2] @ replicate 188 (0::byte)) \<and>
   (\<exists>(t :: 32 word CodeTable) ls.
      CodeTableAdapter_lengths 32 (replicate 65 0 @ [1, 2, 2] @ replicate 188 0) = Inr t \<and>
      ls = sort_by LeafComparator (leaves_of_lengths (replicate 65 0 @ [1, 2, 2] @ replicate 188 0)) \<and>
      ls \<noteq> [] \<and>
      codes t (element (ls ! 0)) = \<lparr>codelength = depth (ls ! 0), code = 0\<rparr>)"
proof -
  let ?fd = "replicate 65 0 @ [1, 2, 2] @ replicate 188 (0::byte)"
  have h1: "length ?fd = ALPHABET_SIZE" by (simp add: ALPHABET_SIZE_def)
  have h2: "\<forall>b\<in>set ?fd. b \<noteq> 0 \<longrightarrow> unat b < 32" by simp
  have h3: "\<exists>b\<in>set ?fd. b \<noteq> 0" by simp
  have "list_all (\<lambda>b. b = 0 \<or> unat b < 32) ?fd" using h2 by (simp add: list_all_iff)
  moreover have "list_ex (\<lambda>b. b \<noteq> 0) ?fd" using h3 by (simp add: list_ex_iff)
  ultimately show ?thesis
    using h1 canonical_code_assignment [where 'a = 32, OF h1 h2 h3] by blast
qed

section \<open>The Resolver\<close>

subsection \<open>Frequencies\<close>

lemma freqs_count:
  "foldl (\<lambda>f s. f(s := f s + 1)) f0 data s = f0 s + count_list data s"
  by (induction data arbitrary: f0) auto

lemma symbols_countFrequencies:
  "mset (map symbol (countFrequencies data)) = mset (filter (\<lambda>s. s \<in> set data) all_symbols)"
proof -
  let ?freqs = "foldl (\<lambda>f s. f(s := f s + 1)) (\<lambda>_. 0::nat) data"
  have pos: "?freqs s > 0 \<longleftrightarrow> s \<in> set data" for s
    using freqs_count [of "\<lambda>_. 0" data s] count_list_0_iff [of data s] by auto
  have "mset (map symbol (countFrequencies data)) =
        mset (map symbol (map (\<lambda>i. FrequencyMake i (?freqs i)) (filter (\<lambda>i. ?freqs i > 0) all_symbols)))"
    unfolding countFrequencies_def Let_def by (simp only: mset_map mset_sort_by)
  also have "\<dots> = mset (filter (\<lambda>i. ?freqs i > 0) all_symbols)"
    by (simp add: comp_def FrequencyMake_def)
  finally show ?thesis by (simp only: pos)
qed

lemma distinct_symbols_countFrequencies: "distinct (map symbol (countFrequencies data))"
proof -
  have "distinct (filter (\<lambda>s. s \<in> set data) all_symbols)"
    using distinct_all_symbols by simp
  then show ?thesis
    using symbols_countFrequencies [of data] by (metis mset_eq_imp_distinct_iff)
qed

lemma set_symbols_countFrequencies: "set (map symbol (countFrequencies data)) = set data"
proof -
  have "set (map symbol (countFrequencies data)) = set (filter (\<lambda>s. s \<in> set data) all_symbols)"
    using symbols_countFrequencies [of data] by (metis set_mset_mset)
  then show ?thesis by (auto simp: set_all_symbols)
qed

lemma countFrequencies_empty_iff: "countFrequencies data = [] \<longleftrightarrow> data = []"
  using set_symbols_countFrequencies [of data] by (metis list.map_disc_iff set_empty)

subsection \<open>The priority structure\<close>

lemma length_tree_insert [simp]: "length (tree_insert kv t) = Suc (length t)"
  by (induction t) auto

lemma forest_symbols_tree_insert:
  "mset (forest_symbols (tree_insert kv t)) = mset (leaf_symbols (snd kv)) + mset (forest_symbols t)"
  by (induction t) (auto simp: forest_symbols_def)

lemma seed_tree_general:
  "length (foldl (\<lambda>t f. tree_insert (frequency f, LeafNode (symbol f)) t) t0 fs) =
     length t0 + length fs \<and>
   mset (forest_symbols (foldl (\<lambda>t f. tree_insert (frequency f, LeafNode (symbol f)) t) t0 fs)) =
     mset (forest_symbols t0) + mset (map symbol fs)"
  by (induction fs arbitrary: t0) (auto simp: forest_symbols_tree_insert)

lemma length_seed_tree: "length (seed_tree fs) = length fs"
  using seed_tree_general [of "[]" fs] by (simp add: seed_tree_def)

lemma symbols_seed_tree: "mset (forest_symbols (seed_tree fs)) = mset (map symbol fs)"
  using seed_tree_general [of "[]" fs] by (simp add: seed_tree_def forest_symbols_def)

lemma seed_tree_single: "seed_tree [f] = [(frequency f, LeafNode (symbol f))]"
  by (simp add: seed_tree_def)

lemma buildTree_loop_merges:
  "length tree = Suc (Suc i) \<Longrightarrow>
   \<exists>k l r. buildTree_loop (Suc i) tree = Inr [(k, InnerNode l r)] \<and>
           mset (leaf_symbols (InnerNode l r)) = mset (forest_symbols tree)"
proof (induction i arbitrary: tree)
  case 0
  then obtain a b where "tree = [a, b]"
    by (metis length_0_conv length_Suc_conv)
  then show ?case by (simp add: forest_symbols_def)
next
  case (Suc i)
  then obtain a b rest where tree: "tree = a # b # rest" and len: "length rest = Suc i"
    by (metis length_Suc_conv)
  let ?t = "tree_insert (fst a + fst b, InnerNode (snd a) (snd b)) rest"
  have "length ?t = Suc (Suc i)" using len by simp
  then obtain k l r where res: "buildTree_loop (Suc i) ?t = Inr [(k, InnerNode l r)]"
    and sym: "mset (leaf_symbols (InnerNode l r)) = mset (forest_symbols ?t)"
    using Suc.IH [of ?t] by blast
  have "mset (forest_symbols ?t) = mset (forest_symbols tree)"
    by (simp add: forest_symbols_tree_insert tree) (simp add: forest_symbols_def)
  moreover have "buildTree_loop (Suc (Suc i)) tree = buildTree_loop (Suc i) ?t"
    by (simp add: tree)
  ultimately show ?case using res sym by metis
qed

lemma buildTree_result:
  assumes "length tree > 1"
  shows "\<exists>l r. buildTree tree = Inr (InnerNode l r) \<and>
               mset (leaf_symbols (InnerNode l r)) = mset (forest_symbols tree)"
proof -
  obtain i where i: "length tree = Suc (Suc i)"
    using assms by (metis Suc_lessE less_one not_less_zero gr0_implies_Suc less_Suc_eq)
  then obtain k l r where "buildTree_loop (Suc i) tree = Inr [(k, InnerNode l r)]"
    "mset (leaf_symbols (InnerNode l r)) = mset (forest_symbols tree)"
    using buildTree_loop_merges by blast
  then show ?thesis using i by (auto simp: buildTree_def)
qed

subsection \<open>Depths of the leaves\<close>

lemma fst_leaf_depths: "map fst (leaf_depths t d) = leaf_symbols t"
  by (induction t arbitrary: d) auto

lemma assign_depths_other: "s \<notin> set (leaf_symbols t) \<Longrightarrow> assign_depths t d m s = m s"
  by (induction t arbitrary: d m) auto

lemma assign_depths_leaf:
  "distinct (leaf_symbols t) \<Longrightarrow> (s, k) \<in> set (leaf_depths t d) \<Longrightarrow> assign_depths t d m s = k"
proof (induction t arbitrary: d m)
  case (LeafNode x)
  then show ?case by simp
next
  case (InnerNode l r)
  have dl: "distinct (leaf_symbols l)" and dr: "distinct (leaf_symbols r)"
    and disj: "set (leaf_symbols l) \<inter> set (leaf_symbols r) = {}"
    using InnerNode.prems(1) by auto
  from InnerNode.prems(2) consider
    (left) "(s, k) \<in> set (leaf_depths l (Suc d))" | (right) "(s, k) \<in> set (leaf_depths r (Suc d))"
    by auto
  then show ?case
  proof cases
    case left
    then have "s \<in> set (leaf_symbols l)"
      using fst_leaf_depths [of l "Suc d"] by (metis fst_conv image_eqI set_map)
    then have "s \<notin> set (leaf_symbols r)" using disj by blast
    then have "assign_depths (InnerNode l r) d m s = assign_depths l (Suc d) m s"
      by (simp add: assign_depths_other)
    then show ?thesis using InnerNode.IH(1) [OF dl left] by simp
  next
    case right
    then show ?thesis using InnerNode.IH(2) [OF dr right] by simp
  qed
qed

lemma leaf_depths_ge: "(s, k) \<in> set (leaf_depths t d) \<Longrightarrow> d \<le> k"
proof (induction t arbitrary: d)
  case (LeafNode x)
  then show ?case by simp
next
  case (InnerNode l r)
  then have "Suc d \<le> k" by auto
  then show ?case by simp
qed

lemma leaf_depths_inner_pos: "(s, k) \<in> set (leaf_depths (InnerNode l r) 0) \<Longrightarrow> 1 \<le> k"
  using leaf_depths_ge [of s k l 1] leaf_depths_ge [of s k r 1] by auto

lemma leaf_depths_le_height: "(s, k) \<in> set (leaf_depths t d) \<Longrightarrow> k \<le> d + height t"
proof (induction t arbitrary: d)
  case (LeafNode x)
  then show ?case by simp
next
  case (InnerNode l r)
  from InnerNode.prems have "(s, k) \<in> set (leaf_depths l (Suc d)) \<or>
      (s, k) \<in> set (leaf_depths r (Suc d))" by simp
  then have "k \<le> Suc d + height l \<or> k \<le> Suc d + height r"
    using InnerNode.IH by blast
  then show ?case by auto
qed

lemma kraft_leaf_depths: "(\<Sum>p\<leftarrow>leaf_depths t d. 1 / 2 ^ snd p) = (1 / 2 ^ d :: real)"
proof (induction t arbitrary: d)
  case (LeafNode x)
  then show ?case by simp
next
  case (InnerNode l r)
  have "(\<Sum>p\<leftarrow>leaf_depths (InnerNode l r) d. 1 / 2 ^ snd p) =
        (1 / 2 ^ Suc d + 1 / 2 ^ Suc d :: real)"
    by (simp add: InnerNode.IH)
  then show ?case by simp
qed

lemma deepest_leaves:
  "(case t of LeafNode s \<Rightarrow> 1 | InnerNode l r \<Rightarrow> 2)
     \<le> length (filter (\<lambda>p. snd p = d + height t) (leaf_depths t d))"
proof (induction t arbitrary: d)
  case (LeafNode x)
  then show ?case by simp
next
  case (InnerNode l r)
  let ?h = "d + height (InnerNode l r)"
  have one_l: "height r \<le> height l \<Longrightarrow>
      1 \<le> length (filter (\<lambda>p. snd p = ?h) (leaf_depths l (Suc d)))"
    using InnerNode.IH(1) [of "Suc d"] by (cases l) (auto simp: max_def)
  have one_r: "height l \<le> height r \<Longrightarrow>
      1 \<le> length (filter (\<lambda>p. snd p = ?h) (leaf_depths r (Suc d)))"
    using InnerNode.IH(2) [of "Suc d"] by (cases r) (auto simp: max_def)
  have two_l: "height r < height l \<Longrightarrow>
      2 \<le> length (filter (\<lambda>p. snd p = ?h) (leaf_depths l (Suc d)))"
    using InnerNode.IH(1) [of "Suc d"] by (cases l) (auto simp: max_def)
  have two_r: "height l < height r \<Longrightarrow>
      2 \<le> length (filter (\<lambda>p. snd p = ?h) (leaf_depths r (Suc d)))"
    using InnerNode.IH(2) [of "Suc d"] by (cases r) (auto simp: max_def)
  consider "height l = height r" | "height r < height l" | "height l < height r"
    by linarith
  then have "2 \<le> length (filter (\<lambda>p. snd p = ?h) (leaf_depths l (Suc d)))
               + length (filter (\<lambda>p. snd p = ?h) (leaf_depths r (Suc d)))"
  proof cases
    case 1
    then show ?thesis using one_l one_r by simp
  next
    case 2
    then show ?thesis using two_l by simp
  next
    case 3
    then show ?thesis using two_r by simp
  qed
  then show ?case by simp
qed

subsection \<open>The leaves handed to the table builder\<close>

lemma elements_leaves_of_frequencies [simp]:
  "map element (leaves_of_frequencies fs m) = map symbol fs"
  by (simp add: leaves_of_frequencies_def comp_def)

lemma leaves_of_tree:
  assumes dist: "distinct (leaf_symbols t)"
    and syms: "mset (leaf_symbols t) = mset (map symbol fs)"
  shows "mset (map (\<lambda>n. (element n, depth n)) (leaves_of_frequencies fs (assign_depths t d m))) =
         mset (leaf_depths t d)"
proof -
  let ?M = "assign_depths t d m"
  have "map (\<lambda>n. (element n, depth n)) (leaves_of_frequencies fs ?M) =
        map (\<lambda>s. (s, ?M s)) (map symbol fs)"
    by (simp add: leaves_of_frequencies_def comp_def)
  then have "mset (map (\<lambda>n. (element n, depth n)) (leaves_of_frequencies fs ?M)) =
        image_mset (\<lambda>s. (s, ?M s)) (mset (map symbol fs))"
    by (simp only: mset_map)
  also have "\<dots> = mset (map (\<lambda>s. (s, ?M s)) (leaf_symbols t))"
    by (simp only: mset_map syms)
  also have "map (\<lambda>s. (s, ?M s)) (leaf_symbols t) = map (\<lambda>p. (fst p, ?M (fst p))) (leaf_depths t d)"
    by (simp add: fst_leaf_depths [of t d, symmetric] comp_def)
  also have "\<dots> = map (\<lambda>p. p) (leaf_depths t d)"
  proof (rule map_cong [OF refl])
    fix p assume "p \<in> set (leaf_depths t d)"
    then have "?M (fst p) = snd p"
      using assign_depths_leaf [OF dist, of "fst p" "snd p" d m] by simp
    then show "(fst p, ?M (fst p)) = p" by (metis prod.collapse)
  qed
  finally show ?thesis by simp
qed

lemma sum_list_mset_cong:
  fixes g :: "'a \<Rightarrow> real"
  shows "mset xs = mset ys \<Longrightarrow> sum_list (map g xs) = sum_list (map g ys)"
  by (metis mset_map sum_mset_sum_list)

lemma count_filter_mset_cong:
  "mset xs = mset ys \<Longrightarrow> length (filter P xs) = length (filter P ys)"
  by (metis mset_filter size_mset)

lemma kraft_sum_pairs:
  "kraft_sum leaves = (\<Sum>p\<leftarrow>map (\<lambda>n. (element n, depth n)) leaves. 1 / 2 ^ snd p)"
  by (simp add: kraft_sum_def comp_def)

lemma kraft_sum_mset: "mset xs = mset ys \<Longrightarrow> kraft_sum xs = kraft_sum ys"
  unfolding kraft_sum_def by (rule sum_list_mset_cong)

lemma resolve_empty_error: "resolve [] = Inl InvalidDereference"
proof -
  have "countFrequencies [] = []" by (simp add: countFrequencies_empty_iff)
  then show ?thesis by (simp add: resolve_def seed_tree_def)
qed

lemma resolve_single:
  assumes "countFrequencies data = [f]"
  shows "resolve data = Inr [\<lparr>element = symbol f, depth = 1\<rparr>]"
  using assms by (simp add: resolve_def seed_tree_single leaves_of_frequencies_def)

lemma resolve_multi:
  assumes "length (countFrequencies data) > 1"
  shows "\<exists>l r. resolve data =
           Inr (leaves_of_frequencies (countFrequencies data)
                  (assign_depths (InnerNode l r) 0 (\<lambda>_. 0))) \<and>
         mset (leaf_symbols (InnerNode l r)) = mset (map symbol (countFrequencies data))"
proof -
  let ?fs = "countFrequencies data"
  have len: "length (seed_tree ?fs) > 1" using assms by (simp add: length_seed_tree)
  then obtain l r where bt: "buildTree (seed_tree ?fs) = Inr (InnerNode l r)"
    and sy: "mset (leaf_symbols (InnerNode l r)) = mset (forest_symbols (seed_tree ?fs))"
    using buildTree_result by blast
  have "resolve data = Inr (leaves_of_frequencies ?fs (assign_depths (InnerNode l r) 0 (\<lambda>_. 0)))"
    using len bt by (simp add: resolve_def)
  then show ?thesis using sy symbols_seed_tree [of ?fs] by metis
qed

text \<open>What the Resolver returns on a non-empty buffer.\<close>

lemma resolve_nonempty:
  assumes "data \<noteq> []"
  shows "\<exists>leaves. resolve data = Inr leaves \<and>
     map element leaves = map symbol (countFrequencies data) \<and>
     (\<forall>n\<in>set leaves. 1 \<le> depth n) \<and>
     ((\<exists>s. leaves = [\<lparr>element = s, depth = 1\<rparr>]) \<or>
      (kraft_sum leaves = 1 \<and>
       (\<exists>h. 2 \<le> length (filter (\<lambda>n. depth n = h) leaves) \<and> (\<forall>n\<in>set leaves. depth n \<le> h))))"
proof -
  let ?fs = "countFrequencies data"
  have "?fs \<noteq> []" using assms by (simp add: countFrequencies_empty_iff)
  then have "(\<exists>f. ?fs = [f]) \<or> length ?fs > 1"
    by (cases ?fs rule: list.exhaust [case_product list.exhaust [of "tl ?fs"]]) auto
  then consider (single) f where "?fs = [f]" | (multi) "length ?fs > 1"
    by blast
  then show ?thesis
  proof cases
    case single
    then have "resolve data = Inr [\<lparr>element = symbol f, depth = 1\<rparr>]" by (rule resolve_single)
    then show ?thesis using single by auto
  next
    case multi
    then obtain l r where res: "resolve data =
        Inr (leaves_of_frequencies ?fs (assign_depths (InnerNode l r) 0 (\<lambda>_. 0)))"
      and sy: "mset (leaf_symbols (InnerNode l r)) = mset (map symbol ?fs)"
      using resolve_multi by blast
    let ?t = "InnerNode l r"
    let ?leaves = "leaves_of_frequencies ?fs (assign_depths ?t 0 (\<lambda>_. 0))"
    have dist: "distinct (leaf_symbols ?t)"
      using sy distinct_symbols_countFrequencies [of data] by (metis mset_eq_imp_distinct_iff)
    have ms: "mset (map (\<lambda>n. (element n, depth n)) ?leaves) = mset (leaf_depths ?t 0)"
      using dist sy by (rule leaves_of_tree)
    have pos: "\<forall>n\<in>set ?leaves. 1 \<le> depth n"
    proof
      fix n assume "n \<in> set ?leaves"
      then have "(element n, depth n) \<in> set (map (\<lambda>n. (element n, depth n)) ?leaves)" by auto
      then have "(element n, depth n) \<in> set (leaf_depths ?t 0)" using ms by (metis set_mset_mset)
      then show "1 \<le> depth n" by (rule leaf_depths_inner_pos)
    qed
    have "kraft_sum ?leaves = (\<Sum>p\<leftarrow>leaf_depths ?t 0. 1 / 2 ^ snd p)"
      unfolding kraft_sum_pairs using ms by (rule sum_list_mset_cong)
    then have kraft: "kraft_sum ?leaves = 1" by (simp only: kraft_leaf_depths) simp
    have "length (filter (\<lambda>n. depth n = height ?t) ?leaves) =
          length (filter (\<lambda>p. snd p = height ?t) (map (\<lambda>n. (element n, depth n)) ?leaves))"
      by (simp add: filter_map comp_def)
    also have "\<dots> = length (filter (\<lambda>p. snd p = height ?t) (leaf_depths ?t 0))"
      using ms by (rule count_filter_mset_cong)
    finally have two: "2 \<le> length (filter (\<lambda>n. depth n = height ?t) ?leaves)"
      using deepest_leaves [of ?t 0] by simp
    have top: "\<forall>n\<in>set ?leaves. depth n \<le> height ?t"
    proof
      fix n assume "n \<in> set ?leaves"
      then have "(element n, depth n) \<in> set (map (\<lambda>n. (element n, depth n)) ?leaves)" by auto
      then have "(element n, depth n) \<in> set (leaf_depths ?t 0)" using ms by (metis set_mset_mset)
      then show "depth n \<le> height ?t" using leaf_depths_le_height [of "element n" "depth n" ?t 0] by simp
    qed
    have "map element ?leaves = map symbol ?fs" by simp
    then show ?thesis using res pos kraft two top by blast
  qed
qed

text \<open>No leaf is deeper than 255: a tree is lower than its number of leaves, and there are
  at most 256 different symbols.\<close>

lemma height_less_leaves: "height t < length (leaf_symbols t)"
proof (induction t)
  case (LeafNode x)
  then show ?case by simp
next
  case (InnerNode l r)
  then show ?case by (simp add: max_def)
qed

lemma distinct_bytes_length:
  assumes "distinct (xs :: byte list)"
  shows "length xs \<le> 256"
proof -
  have "card (set xs) \<le> card (UNIV :: byte set)" by (intro card_mono) simp_all
  then show ?thesis using assms by (simp add: distinct_card card_word)
qed

lemma resolve_depths_small:
  assumes "resolve data = Inr leaves"
  shows "\<forall>n\<in>set leaves. depth n < 256"
proof -
  let ?fs = "countFrequencies data"
  have "data \<noteq> []" using assms resolve_empty_error by auto
  then have "?fs \<noteq> []" by (simp add: countFrequencies_empty_iff)
  then have "(\<exists>f. ?fs = [f]) \<or> length ?fs > 1"
    by (cases ?fs rule: list.exhaust [case_product list.exhaust [of "tl ?fs"]]) auto
  then show ?thesis
  proof
    assume "\<exists>f. ?fs = [f]"
    then obtain f where "?fs = [f]" by blast
    then have "resolve data = Inr [\<lparr>element = symbol f, depth = 1\<rparr>]" by (rule resolve_single)
    then show ?thesis using assms by auto
  next
    assume "length ?fs > 1"
    then obtain l r where res: "resolve data =
        Inr (leaves_of_frequencies ?fs (assign_depths (InnerNode l r) 0 (\<lambda>_. 0)))"
      and sy: "mset (leaf_symbols (InnerNode l r)) = mset (map symbol ?fs)"
      using resolve_multi by blast
    let ?t = "InnerNode l r"
    have dist: "distinct (leaf_symbols ?t)"
      using sy distinct_symbols_countFrequencies [of data] by (metis mset_eq_imp_distinct_iff)
    then have "length (leaf_symbols ?t) \<le> 256" by (rule distinct_bytes_length)
    with height_less_leaves [of ?t] have h: "height ?t < 256" by (rule less_le_trans)
    have ms: "mset (map (\<lambda>n. (element n, depth n)) leaves) = mset (leaf_depths ?t 0)"
      using leaves_of_tree [OF dist sy, of 0 "\<lambda>_. 0"] res assms by simp
    show ?thesis
    proof
      fix n assume "n \<in> set leaves"
      then have "(element n, depth n) \<in> set (map (\<lambda>n. (element n, depth n)) leaves)" by auto
      then have "(element n, depth n) \<in> set (leaf_depths ?t 0)" using ms by (metis set_mset_mset)
      then have "depth n \<le> 0 + height ?t" by (rule leaf_depths_le_height)
      then show "depth n < 256" using h by (simp del: height.simps)
    qed
  qed
qed

section \<open>Built tables\<close>

subsection \<open>The constructor from raw data\<close>


lemma CodeTableAdapter_data_built:
  assumes "CodeTableAdapter_data mcl mdb data = Inr t"
  shows "\<exists>leaves. resolve data = Inr leaves \<and> data \<noteq> [] \<and> length data \<le> mdb \<and>
           buildTable mcl (sort_by LeafComparator leaves) zero_codes = Inr t"
proof -
  have len: "length data \<le> mdb" using assms by (auto simp: CodeTableAdapter_data_def split: if_splits)
  then obtain leaves where "resolve data = Inr leaves"
    "buildTable mcl (sort_by LeafComparator leaves) zero_codes = Inr t"
    using assms by (auto simp: CodeTableAdapter_data_def split: sum.splits)
  moreover have "data \<noteq> []" using calculation(1) resolve_empty_error by auto
  ultimately show ?thesis using len by blast
qed

lemma CodeTableAdapter_data_from_leaves:
  "length data \<le> mdb \<Longrightarrow> resolve data = Inr leaves \<Longrightarrow>
   CodeTableAdapter_data mcl mdb data = buildTable mcl (sort_by LeafComparator leaves) zero_codes"
  by (simp add: CodeTableAdapter_data_def)

lemma buildTable_single:
  "buildTable mcl [n] cs =
     Inr \<lparr>info = \<lparr>max_codelength = depth n\<rparr>, codes = cs(element n := CodeMake (depth n) 0)\<rparr>"
  by (simp add: buildTable_def)

lemma sort_by_single [simp]: "sort_by lt [x] = [x]"
  by (simp add: sort_by_def)

subsection \<open>Frame and metadata of a built table\<close>

lemma buildTable_codes:
  "buildTable mcl ls cs = Inr t \<Longrightarrow> codes t = write_codes ls (assigned_codes ls) cs"
  by (simp add: buildTable_iff)

lemma buildTable_untouched:
  assumes "buildTable mcl ls cs = Inr t" "s \<notin> element ` set ls"
  shows "codes t s = cs s"
  using assms by (simp add: buildTable_codes write_codes_other)

lemma buildTable_entry:
  assumes "buildTable mcl ls cs = Inr t" "distinct (map element ls)" "i < length ls"
  shows "codes t (element (ls ! i)) = assigned_codes ls ! i"
  using assms by (simp add: buildTable_codes write_codes_nth)

lemma buildTable_entry_cases:
  assumes "buildTable mcl ls cs = Inr t"
  shows "codes t s = cs s \<or> (\<exists>i<length ls. element (ls ! i) = s \<and> codes t s = assigned_codes ls ! i)"
  using assms write_codes_cases [of "assigned_codes ls" ls cs s]
  by (simp add: buildTable_codes)

lemma descending_nth: "descending l ns \<Longrightarrow> i < length ns \<Longrightarrow> depth (ns ! i) \<le> l"
  using descending_imp_sorted [of l ns] by auto

lemma buildTable_depth_le_first:
  assumes "buildTable mcl ls cs = Inr t" "i < length ls"
  shows "depth (ls ! i) \<le> depth (hd ls)"
proof (cases i)
  case 0
  then show ?thesis using assms by (cases ls) auto
next
  case (Suc j)
  have "descending (depth (hd ls)) (tl ls)" using assms(1) by (simp add: buildTable_iff)
  moreover have "j < length (tl ls)" using assms(2) Suc by simp
  ultimately have "depth (tl ls ! j) \<le> depth (hd ls)" by (rule descending_nth)
  then show ?thesis using Suc assms(2) by (cases ls) auto
qed

lemma buildTable_max:
  assumes built: "buildTable mcl ls zero_codes = Inr t"
    and dist: "distinct (map element ls)"
    and pos: "\<forall>n\<in>set ls. 1 \<le> depth n"
  shows "max_codelength (info t) \<noteq> 0 \<and>
         (\<exists>s. codelength (codes t s) = max_codelength (info t)) \<and>
         (\<forall>s. codelength (codes t s) \<le> max_codelength (info t))"
proof -
  have ne: "ls \<noteq> []" and mx: "max_codelength (info t) = depth (hd ls)"
    using built by (simp_all add: buildTable_iff)
  have "hd ls \<in> set ls" using ne by simp
  then have nz: "max_codelength (info t) \<noteq> 0" using pos mx by force
  have "codes t (element (ls ! 0)) = assigned_codes ls ! 0"
    using built dist ne by (intro buildTable_entry) simp_all
  then have "codelength (codes t (element (ls ! 0))) = depth (ls ! 0)"
    using ne by (simp add: codelength_assigned_nth)
  then have ex: "\<exists>s. codelength (codes t s) = max_codelength (info t)"
    using mx ne by (metis hd_conv_nth)
  have "codelength (codes t s) \<le> max_codelength (info t)" for s
  proof -
    from buildTable_entry_cases [OF built, of s] show ?thesis
    proof
      assume "codes t s = zero_codes s"
      then show ?thesis by (simp add: zero_codes_def)
    next
      assume "\<exists>i<length ls. element (ls ! i) = s \<and> codes t s = assigned_codes ls ! i"
      then obtain i where "i < length ls" "codes t s = assigned_codes ls ! i" by blast
      then show ?thesis
        using buildTable_depth_le_first [OF built, of i] mx by (simp add: codelength_assigned_nth)
    qed
  qed
  then show ?thesis using nz ex by blast
qed

lemma lengths_positive: "\<forall>n\<in>set (leaves_of_lengths fd). 1 \<le> depth n"
proof
  fix n assume "n \<in> set (leaves_of_lengths fd)"
  then obtain s :: byte where "n = \<lparr>element = s, depth = unat (fd ! unat s)\<rparr>" "fd ! unat s \<noteq> 0"
    by (auto simp: set_leaves_of_lengths)
  then show "1 \<le> depth n" using unat_gt_0 [of "fd ! unat s"] by simp
qed

text \<open>
  Claim C5 (Kraft compliance). On every non-empty buffer the Resolver (frequency count,
  then merging of the two rarest entries, then the depths of the leaves) returns one leaf
  per byte value that occurs, and the sum of \<open>2^(-depth)\<close> over these leaves is at most 1.
\<close>

theorem resolver_kraft_compliance:
  assumes "data \<noteq> []"
  shows "\<exists>leaves. resolve data = Inr leaves \<and> distinct (map element leaves) \<and>
           set (map element leaves) = set data \<and> kraft_sum leaves \<le> 1"
proof -
  obtain leaves where res: "resolve data = Inr leaves"
    and el: "map element leaves = map symbol (countFrequencies data)"
    and shape: "(\<exists>s. leaves = [\<lparr>element = s, depth = 1\<rparr>]) \<or> kraft_sum leaves = 1"
    using resolve_nonempty [OF assms] by blast
  have "kraft_sum leaves \<le> 1"
    using shape by (auto simp: kraft_sum_def)
  moreover have "distinct (map element leaves)"
    using el distinct_symbols_countFrequencies by simp
  moreover have "set (map element leaves) = set data"
    using el set_symbols_countFrequencies by simp
  ultimately show ?thesis using res by blast
qed

theorem resolver_kraft_compliance_witness:
  "[1, 1, 1, 2, 2, 3 :: byte] \<noteq> [] \<and>
   (\<exists>leaves. resolve [1, 1, 1, 2, 2, 3] = Inr leaves \<and> distinct (map element leaves) \<and>
      set (map element leaves) = set [1, 1, 1, 2, 2, 3 :: byte] \<and> kraft_sum leaves \<le> 1)"
  using resolver_kraft_compliance [of "[1, 1, 1, 2, 2, 3]"] by simp

lemma distinct_set_single:
  assumes "distinct xs" "set xs = {a}"
  shows "xs = [a]"
proof (cases xs)
  case Nil
  then show ?thesis using assms(2) by simp
next
  case (Cons x ys)
  then have "x = a" using assms(2) by auto
  moreover have "set ys \<subseteq> {a}" using assms(2) Cons by auto
  moreover have "a \<notin> set ys" using assms(1) Cons calculation(1) by simp
  ultimately have "ys = []" by (cases ys) auto
  then show ?thesis using Cons \<open>x = a\<close> by simp
qed

text \<open>
  Claim C6 (single-symbol case). When exactly one byte value \<open>s\<close> occurs in a buffer
  within the maximum size, construction succeeds, \<open>s\<close> gets codelength 1 with pattern 0,
  and every other entry of the table stays zero.
\<close>

theorem single_symbol_table:
  assumes one: "set data = {s}" and size: "length data \<le> mdb"
  shows "\<exists>t :: 'a::len word CodeTable. CodeTableAdapter_data mcl mdb data = Inr t \<and>
           codes t s = \<lparr>codelength = 1, code = 0\<rparr> \<and>
           (\<forall>s'. s' \<noteq> s \<longrightarrow> codes t s' = \<lparr>codelength = 0, code = 0\<rparr>)"
proof -
  let ?fs = "countFrequencies data"
  have "set (map symbol ?fs) = {s}" using one by (simp only: set_symbols_countFrequencies)
  moreover have "distinct (map symbol ?fs)" by (rule distinct_symbols_countFrequencies)
  ultimately have "map symbol ?fs = [s]" by (intro distinct_set_single)
  then obtain f where "?fs = [f]" "symbol f = s" by auto
  then have "resolve data = Inr [\<lparr>element = s, depth = 1\<rparr>]"
    using resolve_single [of data f] by simp
  then have "(CodeTableAdapter_data mcl mdb data :: error + 'a word CodeTable) =
      Inr \<lparr>info = \<lparr>max_codelength = 1\<rparr>, codes = zero_codes(s := CodeMake 1 0)\<rparr>"
    using size by (simp add: CodeTableAdapter_data_from_leaves buildTable_single)
  then show ?thesis by (simp add: CodeMake_def zero_codes_def)
qed

theorem single_symbol_table_witness:
  "set [7, 7, 7 :: byte] = {7} \<and> length [7, 7, 7 :: byte] \<le> 100 \<and>
   (\<exists>t :: 32 word CodeTable. CodeTableAdapter_data 32 100 [7, 7, 7] = Inr t \<and>
      codes t 7 = \<lparr>codelength = 1, code = 0\<rparr> \<and>
      codes t 8 = \<lparr>codelength = 0, code = 0\<rparr>)"
proof -
  have h1: "set [7, 7, 7 :: byte] = {7}" by simp
  have h2: "length [7, 7, 7 :: byte] \<le> 100" by simp
  obtain t :: "32 word CodeTable" where "CodeTableAdapter_data 32 100 [7, 7, 7] = Inr t"
    "codes t 7 = \<lparr>codelength = 1, code = 0\<rparr>"
    "\<forall>s'. s' \<noteq> 7 \<longrightarrow> codes t s' = \<lparr>codelength = 0, code = 0\<rparr>"
    using single_symbol_table [OF h1 h2, where 'a = 32 and mcl = 32] by blast
  moreover have "(8 :: byte) \<noteq> 7" by simp
  ultimately show ?thesis using h1 h2 by blast
qed

text \<open>
  Claim C7 (\<open>max_codelength\<close>). In every table that a constructor builds, the stored
  \<open>max_codelength\<close> is the greatest codelength among the assigned codes: it is not zero,
  some symbol has it, and no symbol has a greater one.
\<close>

theorem max_codelength_is_greatest:
  fixes t :: "'a::len word CodeTable"
  assumes "CodeTableAdapter_lengths mcl file_data = Inr t \<or> CodeTableAdapter_data mcl mdb data = Inr t"
  shows "max_codelength (info t) = Max {codelength (codes t s) | s. codelength (codes t s) \<noteq> 0} \<and>
         max_codelength (info t) \<noteq> 0 \<and>
         (\<exists>s. codelength (codes t s) = max_codelength (info t)) \<and>
         (\<forall>s. codelength (codes t s) \<le> max_codelength (info t))"
proof -
  have "\<exists>ls. buildTable mcl ls zero_codes = Inr t \<and> distinct (map element ls) \<and>
      (\<forall>n\<in>set ls. 1 \<le> depth n)"
    using assms
  proof
    assume "CodeTableAdapter_lengths mcl file_data = Inr t"
    then have "buildTable mcl (sort_by LeafComparator (leaves_of_lengths file_data)) zero_codes = Inr t"
      by (simp add: CodeTableAdapter_lengths_iff)
    moreover have "distinct (map element (sort_by LeafComparator (leaves_of_lengths file_data)))"
      by (simp add: distinct_map_sort_by distinct_elements_leaves_of_lengths)
    moreover have "\<forall>n\<in>set (sort_by LeafComparator (leaves_of_lengths file_data)). 1 \<le> depth n"
      using lengths_positive [of file_data] by (simp add: set_sort_by)
    ultimately show ?thesis by blast
  next
    assume "CodeTableAdapter_data mcl mdb data = Inr t"
    then obtain leaves where res: "resolve data = Inr leaves" and ne: "data \<noteq> []"
      and built: "buildTable mcl (sort_by LeafComparator leaves) zero_codes = Inr t"
      using CodeTableAdapter_data_built by blast
    obtain leaves' where "resolve data = Inr leaves'"
      "map element leaves' = map symbol (countFrequencies data)" "\<forall>n\<in>set leaves'. 1 \<le> depth n"
      using resolve_nonempty [OF ne] by blast
    then have "map element leaves = map symbol (countFrequencies data)" "\<forall>n\<in>set leaves. 1 \<le> depth n"
      using res by simp_all
    then have "distinct (map element (sort_by LeafComparator leaves))"
      "\<forall>n\<in>set (sort_by LeafComparator leaves). 1 \<le> depth n"
      using distinct_symbols_countFrequencies [of data]
      by (simp_all add: distinct_map_sort_by set_sort_by)
    then show ?thesis using built by blast
  qed
  then obtain ls where "buildTable mcl ls zero_codes = Inr t" "distinct (map element ls)"
    "\<forall>n\<in>set ls. 1 \<le> depth n" by blast
  then have nz: "max_codelength (info t) \<noteq> 0"
    and ex: "\<exists>s. codelength (codes t s) = max_codelength (info t)"
    and ub: "\<forall>s. codelength (codes t s) \<le> max_codelength (info t)"
    using buildTable_max [of mcl ls t] by blast+
  let ?A = "{codelength (codes t s) | s. codelength (codes t s) \<noteq> 0}"
  have "?A \<subseteq> range (\<lambda>s. codelength (codes t s))" by blast
  then have "finite ?A" by (rule finite_subset) simp
  moreover have "max_codelength (info t) \<in> ?A"
  proof -
    obtain s where "codelength (codes t s) = max_codelength (info t)" using ex by blast
    then have "max_codelength (info t) = codelength (codes t s) \<and> codelength (codes t s) \<noteq> 0"
      using nz by simp
    then show ?thesis by blast
  qed
  moreover have "\<And>y. y \<in> ?A \<Longrightarrow> y \<le> max_codelength (info t)" using ub by blast
  ultimately have "Max ?A = max_codelength (info t)" by (intro Max_eqI)
  then show ?thesis using nz ex ub by simp
qed

lemma example_data_built:
  "\<not> isl (CodeTableAdapter_data 32 100 [1, 1, 1, 2, 2, 3] :: error + 32 word CodeTable)"
  by code_simp

lemma example_lengths_built:
  "\<not> isl (CodeTableAdapter_lengths 32 (replicate 65 0 @ [1, 2, 2] @ replicate 188 0)
            :: error + 32 word CodeTable)"
  by code_simp

theorem max_codelength_is_greatest_witness:
  "\<exists>t :: 32 word CodeTable. CodeTableAdapter_data 32 100 [1, 1, 1, 2, 2, 3] = Inr t \<and>
     max_codelength (info t) = Max {codelength (codes t s) | s. codelength (codes t s) \<noteq> 0} \<and>
     max_codelength (info t) \<noteq> 0"
proof -
  obtain t :: "32 word CodeTable" where t: "CodeTableAdapter_data 32 100 [1, 1, 1, 2, 2, 3] = Inr t"
    using example_data_built by (metis sum.collapse(2))
  then have "CodeTableAdapter_lengths 32 [] = Inr t \<or> CodeTableAdapter_data 32 100 [1, 1, 1, 2, 2, 3] = Inr t" by simp
  from max_codelength_is_greatest [OF this] t show ?thesis by blast
qed

text \<open>
  Claim C9 (unused symbols untouched). In a table built from a length descriptor, every
  symbol whose descriptor entry is 0, and in a table built from raw data, every byte
  value that does not occur in the data, keeps the zero entry of the initial
  \<open>memset\<close>: codelength 0 and pattern 0. The builder writes no other entry.
\<close>

theorem unused_symbols_untouched:
  fixes t t' :: "'a::len word CodeTable"
  shows "(CodeTableAdapter_lengths mcl file_data = Inr t \<longrightarrow>
            (\<forall>s::byte. file_data ! unat s = 0 \<longrightarrow> codes t s = \<lparr>codelength = 0, code = 0\<rparr>)) \<and>
         (CodeTableAdapter_data mcl mdb data = Inr t' \<longrightarrow>
            (\<forall>s. s \<notin> set data \<longrightarrow> codes t' s = \<lparr>codelength = 0, code = 0\<rparr>))"
proof (intro conjI impI allI)
  fix s :: byte
  assume built: "CodeTableAdapter_lengths mcl file_data = Inr t" and unused: "file_data ! unat s = 0"
  have "buildTable mcl (sort_by LeafComparator (leaves_of_lengths file_data)) zero_codes = Inr t"
    using built by (simp add: CodeTableAdapter_lengths_iff)
  moreover have "s \<notin> element ` set (sort_by LeafComparator (leaves_of_lengths file_data))"
    using unused by (auto simp: set_sort_by set_leaves_of_lengths)
  ultimately have "codes t s = zero_codes s" by (rule buildTable_untouched)
  then show "codes t s = \<lparr>codelength = 0, code = 0\<rparr>" by (simp add: zero_codes_def)
next
  fix s
  assume built: "CodeTableAdapter_data mcl mdb data = Inr t'" and unused: "s \<notin> set data"
  obtain leaves where res: "resolve data = Inr leaves" and ne: "data \<noteq> []"
    and bt: "buildTable mcl (sort_by LeafComparator leaves) zero_codes = Inr t'"
    using CodeTableAdapter_data_built [OF built] by blast
  have "map element leaves = map symbol (countFrequencies data)"
    using resolve_nonempty [OF ne] res by auto
  then have "set (map element leaves) = set data"
    by (simp only: set_symbols_countFrequencies)
  then have "s \<notin> element ` set (sort_by LeafComparator leaves)"
    using unused by (simp add: set_sort_by)
  with bt have "codes t' s = zero_codes s" by (rule buildTable_untouched)
  then show "codes t' s = \<lparr>codelength = 0, code = 0\<rparr>" by (simp add: zero_codes_def)
qed

theorem unused_symbols_untouched_witness:
  "(\<exists>t :: 32 word CodeTable.
      CodeTableAdapter_lengths 32 (replicate 65 0 @ [1, 2, 2] @ replicate 188 0) = Inr t \<and>
      (replicate 65 0 @ [1, 2, 2] @ replicate 188 (0::byte)) ! unat (5::byte) = 0 \<and>
      codes t 5 = \<lparr>codelength = 0, code = 0\<rparr>) \<and>
   (\<exists>t' :: 32 word CodeTable.
      CodeTableAdapter_data 32 100 [1, 1, 1, 2, 2, 3] = Inr t' \<and>
      9 \<notin> set [1, 1, 1, 2, 2, 3 :: byte] \<and>
      codes t' 9 = \<lparr>codelength = 0, code = 0\<rparr>)"
proof -
  obtain t :: "32 word CodeTable"
    where t: "CodeTableAdapter_lengths 32 (replicate 65 0 @ [1, 2, 2] @ replicate 188 0) = Inr t"
    using example_lengths_built by (metis sum.collapse(2))
  obtain t' :: "32 word CodeTable" where t': "CodeTableAdapter_data 32 100 [1, 1, 1, 2, 2, 3] = Inr t'"
    using example_data_built by (metis sum.collapse(2))
  have h1: "(replicate 65 0 @ [1, 2, 2] @ replicate 188 (0::byte)) ! unat (5::byte) = 0"
    by (simp add: nth_append)
  have h2: "9 \<notin> set [1, 1, 1, 2, 2, 3 :: byte]" by simp
  show ?thesis
    using unused_symbols_untouched [where t = t and t' = t' and mcl = 32 and mdb = 100
        and file_data = "replicate 65 0 @ [1, 2, 2] @ replicate 188 0"
        and data = "[1, 1, 1, 2, 2, 3]"] t t' h1 h2
    by blast
qed

section \<open>Canonical codes\<close>

subsection \<open>Arithmetic of the canonical walk\<close>

lemma kraft_scaled_Cons [simp]:
  "kraft_scaled l (n # ns) = 2 ^ (l - depth n) + kraft_scaled l ns"
  by (simp add: kraft_scaled_def)

lemma kraft_scaled_Nil [simp]: "kraft_scaled l [] = 0"
  by (simp add: kraft_scaled_def)

lemma kraft_scaled_shift:
  "descending l' ns \<Longrightarrow> l' \<le> l \<Longrightarrow> kraft_scaled l ns = 2 ^ (l - l') * kraft_scaled l' ns"
proof (induction ns arbitrary: l')
  case Nil
  then show ?case by simp
next
  case (Cons n ns)
  have d: "depth n \<le> l'" and desc: "descending (depth n) ns" using Cons.prems(1) by simp_all
  have "descending l' ns" using desc d descending_imp_sorted [of "depth n" ns]
    by (intro descending_sorted) auto
  then have ih: "kraft_scaled l ns = 2 ^ (l - l') * kraft_scaled l' ns"
    using Cons.IH Cons.prems(2) by blast
  have "l - depth n = (l - l') + (l' - depth n)" using d Cons.prems(2) by simp
  then have "(2::nat) ^ (l - depth n) = 2 ^ (l - l') * 2 ^ (l' - depth n)"
    by (simp only: power_add)
  then show ?case using ih by (simp add: algebra_simps)
qed

lemma kraft_scaled_real:
  "descending l ns \<Longrightarrow> real (kraft_scaled l ns) = 2 ^ l * kraft_sum ns"
proof (induction ns arbitrary: l)
  case Nil
  then show ?case by (simp add: kraft_sum_def)
next
  case (Cons n ns)
  have d: "depth n \<le> l" and desc: "descending (depth n) ns" using Cons.prems by simp_all
  have "descending l ns" using desc d descending_imp_sorted [of "depth n" ns]
    by (intro descending_sorted) auto
  then have ih: "real (kraft_scaled l ns) = 2 ^ l * kraft_sum ns" by (rule Cons.IH)
  have "(2::real) ^ (l - depth n) = 2 ^ l / 2 ^ depth n" using d by (simp add: power_diff)
  then show ?case using ih by (simp add: kraft_sum_def algebra_simps)
qed

lemma code_next_code:
  "depth n \<le> codelength c \<Longrightarrow>
   code (next_code c n) = drop_bit (codelength c - depth n) (code c + 1)"
  by (simp add: next_code_def)

lemma unat_next_code:
  fixes c :: "'a::len word Code"
  assumes "depth n \<le> codelength c" "codelength c < LENGTH('a)"
    and "unat (code c) + 1 \<le> 2 ^ codelength c"
  shows "unat (code (next_code c n)) = (unat (code c) + 1) div 2 ^ (codelength c - depth n)"
proof -
  have "(2::nat) ^ codelength c < 2 ^ LENGTH('a)" using assms(2) by simp
  then have "unat (code c) + 1 < 2 ^ LENGTH('a)" using assms(3) by linarith
  then have "unat (code c) + unat (1 :: 'a word) < 2 ^ LENGTH('a)" by (simp only: unat_1)
  then have "unat (code c + 1) = unat (code c) + unat (1 :: 'a word)"
    by (simp only: unat_add_lem)
  then have suc: "unat (code c + 1) = unat (code c) + 1" by (simp only: unat_1)
  have "unat (code (next_code c n)) = drop_bit (codelength c - depth n) (unat (code c + 1))"
    by (simp only: code_next_code [OF assms(1)] unat_drop_bit_eq)
  also have "\<dots> = unat (code c + 1) div 2 ^ (codelength c - depth n)"
    by (rule drop_bit_eq_div)
  finally show ?thesis by (simp only: suc)
qed

text \<open>One round of the loop keeps the Kraft budget: what the pattern has used up plus
  what the remaining leaves need stays within \<open>2^length\<close>.\<close>

lemma budget_step:
  fixes u l k' :: nat
  assumes "l' \<le> l" and "u + 1 + (2 ^ (l - l') + 2 ^ (l - l') * k') \<le> 2 ^ l"
  shows "(u + 1) div 2 ^ (l - l') + 1 + k' \<le> 2 ^ l'"
proof -
  let ?p = "(2::nat) ^ (l - l')"
  let ?q = "(u + 1) div ?p"
  have "?q * ?p \<le> u + 1" by (simp add: div_times_less_eq_dividend)
  then have "?p * (?q + 1 + k') \<le> u + 1 + (?p + ?p * k')" by (simp add: algebra_simps)
  also have "\<dots> \<le> 2 ^ l" by (rule assms(2))
  also have "(2::nat) ^ l = ?p * 2 ^ l'" using assms(1) by (simp flip: power_add)
  finally have "?p * (?q + 1 + k') \<le> ?p * 2 ^ l'" .
  moreover have "0 < ?p" by simp
  ultimately show ?thesis by (simp only: mult_le_cancel1)
qed

lemma budget_step_exact:
  fixes u l k' :: nat
  assumes "l' \<le> l" and "u + 1 + (2 ^ (l - l') + 2 ^ (l - l') * k') = 2 ^ l"
  shows "(u + 1) div 2 ^ (l - l') * 2 ^ (l - l') = u + 1 \<and>
         (u + 1) div 2 ^ (l - l') + 1 + k' = 2 ^ l'"
proof -
  let ?p = "(2::nat) ^ (l - l')"
  let ?q = "(u + 1) div ?p"
  have pl: "(2::nat) ^ l = ?p * 2 ^ l'" using assms(1) by (simp flip: power_add)
  have "?p dvd (u + 1) + (?p + ?p * k')" using assms(2) pl by (metis dvd_triv_left add.assoc)
  moreover have "?p dvd ?p + ?p * k'" by simp
  ultimately have dv: "?p dvd u + 1" using dvd_add_left_iff by blast
  then have ex: "?q * ?p = u + 1" by simp
  then have "?p * (?q + 1 + k') = u + 1 + (?p + ?p * k')" by (simp add: algebra_simps)
  also have "\<dots> = ?p * 2 ^ l'" using assms(2) pl by simp
  finally have "?p * (?q + 1 + k') = ?p * 2 ^ l'" .
  moreover have "?p \<noteq> 0" by simp
  ultimately have "?q + 1 + k' = 2 ^ l'" by (simp only: mult_cancel1) simp
  then show ?thesis using ex by simp
qed

lemma code_walk_fits:
  fixes c :: "'a::len word Code"
  assumes "descending (codelength c) ns" "codelength c < LENGTH('a)"
    and "unat (code c) + 1 + kraft_scaled (codelength c) ns \<le> 2 ^ codelength c"
  shows "\<forall>x\<in>set (code_walk c ns). unat (code x) + 1 \<le> 2 ^ codelength x"
  using assms
proof (induction ns arbitrary: c)
  case Nil
  then show ?case by simp
next
  case (Cons n ns)
  let ?x = "next_code c n"
  have d: "depth n \<le> codelength c" and desc: "descending (depth n) ns"
    using Cons.prems(1) by simp_all
  have ks: "kraft_scaled (codelength c) ns = 2 ^ (codelength c - depth n) * kraft_scaled (depth n) ns"
    using desc d by (rule kraft_scaled_shift)
  have bud: "unat (code c) + 1 + (2 ^ (codelength c - depth n) +
      2 ^ (codelength c - depth n) * kraft_scaled (depth n) ns) \<le> 2 ^ codelength c"
    using Cons.prems(3) ks by simp
  then have "unat (code c) + 1 \<le> 2 ^ codelength c" by simp
  then have ux: "unat (code ?x) = (unat (code c) + 1) div 2 ^ (codelength c - depth n)"
    using d Cons.prems(2) by (intro unat_next_code)
  have nb: "unat (code ?x) + 1 + kraft_scaled (depth n) ns \<le> 2 ^ depth n"
    unfolding ux using d bud by (rule budget_step)
  then have here: "unat (code ?x) + 1 \<le> 2 ^ codelength ?x" by simp
  have "\<forall>y\<in>set (code_walk ?x ns). unat (code y) + 1 \<le> 2 ^ codelength y"
    using desc Cons.prems(2) d nb by (intro Cons.IH) simp_all
  then show ?case using here by simp
qed

lemma precedes_trans: "precedes x y \<Longrightarrow> precedes y z \<Longrightarrow> precedes x z"
proof -
  assume xy: "precedes x y" and yz: "precedes y z"
  have l: "codelength z \<le> codelength y" "codelength y \<le> codelength x"
    using xy yz by (simp_all add: precedes_def)
  have "unat (code y) + 1 \<le> unat (code z) * 2 ^ (codelength y - codelength z)"
    using yz by (simp add: precedes_def)
  then have "unat (code y) \<le> unat (code z) * 2 ^ (codelength y - codelength z)" by simp
  then have "unat (code y) * 2 ^ (codelength x - codelength y) \<le>
      unat (code z) * 2 ^ (codelength y - codelength z) * 2 ^ (codelength x - codelength y)"
    by (rule mult_le_mono1)
  also have "\<dots> = unat (code z) * 2 ^ (codelength x - codelength z)"
    using l by (simp add: mult.assoc flip: power_add)
  finally have "unat (code y) * 2 ^ (codelength x - codelength y) \<le>
      unat (code z) * 2 ^ (codelength x - codelength z)" .
  moreover have "unat (code x) + 1 \<le> unat (code y) * 2 ^ (codelength x - codelength y)"
    using xy by (simp add: precedes_def)
  ultimately show ?thesis using l by (simp add: precedes_def)
qed

lemma precedes_not_prefix:
  assumes "precedes x y"
  shows "\<not> is_prefix x y \<and> \<not> is_prefix y x"
proof -
  have l: "codelength y \<le> codelength x"
    and u: "unat (code x) + 1 \<le> unat (code y) * 2 ^ (codelength x - codelength y)"
    using assms by (simp_all add: precedes_def)
  have "\<not> is_prefix y x"
  proof
    assume "is_prefix y x"
    then have "drop_bit (codelength x - codelength y) (code x) = code y"
      by (simp add: is_prefix_def)
    then have "unat (code x) div 2 ^ (codelength x - codelength y) = unat (code y)"
      by (metis unat_drop_bit_eq drop_bit_eq_div)
    moreover have "unat (code x) < unat (code y) * 2 ^ (codelength x - codelength y)"
      using u by simp
    then have "unat (code x) div 2 ^ (codelength x - codelength y) < unat (code y)"
      by (simp add: less_mult_imp_div_less)
    ultimately show False by simp
  qed
  moreover have "\<not> is_prefix x y"
  proof
    assume p: "is_prefix x y"
    then have "codelength x = codelength y" using l by (simp add: is_prefix_def)
    then have "code y = code x" "unat (code x) + 1 \<le> unat (code y)"
      using p u by (simp_all add: is_prefix_def)
    then show False by simp
  qed
  ultimately show ?thesis by simp
qed

lemma code_walk_precedes:
  fixes c :: "'a::len word Code"
  assumes "descending (codelength c) ns" "codelength c < LENGTH('a)"
    and "unat (code c) + 1 + kraft_scaled (codelength c) ns = 2 ^ codelength c"
  shows "sorted_wrt precedes (c # code_walk c ns)"
  using assms
proof (induction ns arbitrary: c)
  case Nil
  then show ?case by simp
next
  case (Cons n ns)
  let ?x = "next_code c n"
  have d: "depth n \<le> codelength c" and desc: "descending (depth n) ns"
    using Cons.prems(1) by simp_all
  have ks: "kraft_scaled (codelength c) ns = 2 ^ (codelength c - depth n) * kraft_scaled (depth n) ns"
    using desc d by (rule kraft_scaled_shift)
  have bud: "unat (code c) + 1 + (2 ^ (codelength c - depth n) +
      2 ^ (codelength c - depth n) * kraft_scaled (depth n) ns) = 2 ^ codelength c"
    using Cons.prems(3) ks by simp
  then have "unat (code c) + 1 \<le> 2 ^ codelength c" by simp
  then have ux: "unat (code ?x) = (unat (code c) + 1) div 2 ^ (codelength c - depth n)"
    using d Cons.prems(2) by (intro unat_next_code)
  have ex: "unat (code ?x) * 2 ^ (codelength c - depth n) = unat (code c) + 1"
    and nb: "unat (code ?x) + 1 + kraft_scaled (depth n) ns = 2 ^ depth n"
    unfolding ux using budget_step_exact [OF d bud] by simp_all
  have first: "precedes c ?x" using d ex by (simp add: precedes_def)
  have rest: "sorted_wrt precedes (?x # code_walk ?x ns)"
    using desc Cons.prems(2) d nb by (intro Cons.IH) simp_all
  then have "\<forall>y\<in>set (code_walk ?x ns). precedes ?x y" by simp
  then have "\<forall>y\<in>set (code_walk ?x ns). precedes c y" using first precedes_trans by blast
  then show ?case using first rest by simp
qed

subsection \<open>Codes of a built table\<close>

lemma kraft_budget:
  assumes "descending (depth n) ns"
  shows "real (1 + kraft_scaled (depth n) ns) = 2 ^ depth n * kraft_sum (n # ns)"
proof -
  have "real (kraft_scaled (depth n) ns) = 2 ^ depth n * kraft_sum ns"
    using assms by (rule kraft_scaled_real)
  then show ?thesis by (simp add: kraft_sum_def algebra_simps)
qed

lemma assigned_codes_fit:
  assumes ne: "ls \<noteq> []" and desc: "descending (depth (hd ls)) (tl ls)"
    and width: "depth (hd ls) < LENGTH('a::len)" and kraft: "kraft_sum ls \<le> 1"
  shows "\<forall>x\<in>set (assigned_codes ls :: 'a word Code list). unat (code x) + 1 \<le> 2 ^ codelength x"
proof -
  obtain n ns where ls: "ls = n # ns" using ne by (cases ls) auto
  let ?c = "CodeMake (depth n) 0 :: 'a word Code"
  have d: "descending (depth n) ns" using desc ls by simp
  have "real (1 + kraft_scaled (depth n) ns) \<le> 2 ^ depth n * 1"
    unfolding kraft_budget [OF d] using kraft ls by (intro mult_left_mono) simp_all
  then have "real (1 + kraft_scaled (depth n) ns) \<le> real (2 ^ depth n)" by simp
  then have "1 + kraft_scaled (depth n) ns \<le> 2 ^ depth n" by (simp only: of_nat_le_iff)
  then have "unat (code ?c) + 1 + kraft_scaled (codelength ?c) ns \<le> 2 ^ codelength ?c"
    by (simp add: CodeMake_def)
  moreover have "descending (codelength ?c) ns" using d by (simp add: CodeMake_def)
  moreover have "codelength ?c < LENGTH('a)" using width ls by (simp add: CodeMake_def)
  ultimately have "\<forall>x\<in>set (code_walk ?c ns). unat (code x) + 1 \<le> 2 ^ codelength x"
    by (intro code_walk_fits)
  moreover have "unat (code ?c) + 1 \<le> 2 ^ codelength ?c" by (simp add: CodeMake_def)
  ultimately show ?thesis using ls by (simp add: assigned_codes_def)
qed

lemma assigned_codes_precede:
  assumes ne: "ls \<noteq> []" and desc: "descending (depth (hd ls)) (tl ls)"
    and kraft: "length ls = 1 \<or> (kraft_sum ls = 1 \<and> depth (hd ls) < LENGTH('a::len))"
  shows "sorted_wrt precedes (assigned_codes ls :: 'a word Code list)"
proof -
  obtain n ns where ls: "ls = n # ns" using ne by (cases ls) auto
  let ?c = "CodeMake (depth n) 0 :: 'a word Code"
  from kraft show ?thesis
  proof
    assume "length ls = 1"
    then have "ns = []" using ls by simp
    then show ?thesis using ls by (simp add: assigned_codes_def)
  next
    assume "kraft_sum ls = 1 \<and> depth (hd ls) < LENGTH('a)"
    then have k1: "kraft_sum ls = 1" and width: "depth (hd ls) < LENGTH('a)" by simp_all
    have d: "descending (depth n) ns" using desc ls by simp
    have "real (1 + kraft_scaled (depth n) ns) = real (2 ^ depth n)"
      unfolding kraft_budget [OF d] using k1 ls by simp
    then have "1 + kraft_scaled (depth n) ns = 2 ^ depth n" by (simp only: of_nat_eq_iff)
    then have "unat (code ?c) + 1 + kraft_scaled (codelength ?c) ns = 2 ^ codelength ?c"
      by (simp add: CodeMake_def)
    moreover have "descending (codelength ?c) ns" using d by (simp add: CodeMake_def)
    moreover have "codelength ?c < LENGTH('a)" using width ls by (simp add: CodeMake_def)
    ultimately have "sorted_wrt precedes (?c # code_walk ?c ns)"
      by (intro code_walk_precedes)
    then show ?thesis using ls by (simp add: assigned_codes_def)
  qed
qed

lemma buildTable_fits:
  fixes t :: "'a::len word CodeTable"
  assumes built: "buildTable mcl ls zero_codes = Inr t"
    and width: "depth (hd ls) < LENGTH('a)" and kraft: "kraft_sum ls \<le> 1"
  shows "unat (code (codes t s)) < 2 ^ codelength (codes t s)"
proof -
  have ne: "ls \<noteq> []" and desc: "descending (depth (hd ls)) (tl ls)"
    using built by (simp_all add: buildTable_iff)
  have fit: "\<forall>x\<in>set (assigned_codes ls :: 'a word Code list). unat (code x) + 1 \<le> 2 ^ codelength x"
    using ne desc width kraft by (rule assigned_codes_fit)
  from buildTable_entry_cases [OF built, of s] show ?thesis
  proof
    assume "codes t s = zero_codes s"
    then show ?thesis by (simp add: zero_codes_def)
  next
    assume "\<exists>i<length ls. element (ls ! i) = s \<and> codes t s = assigned_codes ls ! i"
    then obtain i where "i < length ls" "codes t s = assigned_codes ls ! i" by blast
    then have "codes t s \<in> set (assigned_codes ls :: 'a word Code list)" by simp
    then have "unat (code (codes t s)) + 1 \<le> 2 ^ codelength (codes t s)" using fit by blast
    then show ?thesis by simp
  qed
qed

lemma buildTable_prefix_free:
  fixes t :: "'a::len word CodeTable"
  assumes built: "buildTable mcl ls zero_codes = Inr t"
    and kraft: "length ls = 1 \<or> (kraft_sum ls = 1 \<and> depth (hd ls) < LENGTH('a))"
    and ne: "s \<noteq> s'" and used: "codelength (codes t s) \<noteq> 0" "codelength (codes t s') \<noteq> 0"
  shows "\<not> is_prefix (codes t s) (codes t s')"
proof -
  have nel: "ls \<noteq> []" and desc: "descending (depth (hd ls)) (tl ls)"
    using built by (simp_all add: buildTable_iff)
  have sorted: "sorted_wrt precedes (assigned_codes ls :: 'a word Code list)"
    using nel desc kraft by (rule assigned_codes_precede)
  have "codes t s \<noteq> zero_codes s" using used(1) by (auto simp: zero_codes_def)
  then obtain i where i: "i < length ls" "element (ls ! i) = s" "codes t s = assigned_codes ls ! i"
    using buildTable_entry_cases [OF built, of s] by blast
  have "codes t s' \<noteq> zero_codes s'" using used(2) by (auto simp: zero_codes_def)
  then obtain j where j: "j < length ls" "element (ls ! j) = s'" "codes t s' = assigned_codes ls ! j"
    using buildTable_entry_cases [OF built, of s'] by blast
  have "i \<noteq> j" using ne i(2) j(2) by auto
  then consider "i < j" | "j < i" by linarith
  then show ?thesis
  proof cases
    case 1
    then have "precedes (assigned_codes ls ! i :: 'a word Code) (assigned_codes ls ! j)"
      using sorted j(1) by (simp add: sorted_wrt_iff_nth_less)
    then show ?thesis using precedes_not_prefix i(3) j(3) by metis
  next
    case 2
    then have "precedes (assigned_codes ls ! j :: 'a word Code) (assigned_codes ls ! i)"
      using sorted i(1) by (simp add: sorted_wrt_iff_nth_less)
    then show ?thesis using precedes_not_prefix i(3) j(3) by metis
  qed
qed

subsection \<open>The sorted leaves of either constructor\<close>

lemma CodeTableAdapter_lengths_leaves:
  assumes "CodeTableAdapter_lengths mcl file_data = Inr t"
  shows "buildTable mcl (sort_by LeafComparator (leaves_of_lengths file_data)) zero_codes = Inr t \<and>
         (\<forall>n\<in>set (sort_by LeafComparator (leaves_of_lengths file_data)). 1 \<le> depth n \<and> depth n < mcl)"
proof -
  have "\<forall>s::byte. file_data ! unat s \<noteq> 0 \<longrightarrow> unat (file_data ! unat s) < mcl"
    using assms by (simp add: CodeTableAdapter_lengths_iff)
  then have "\<forall>n\<in>set (leaves_of_lengths file_data). depth n < mcl"
    by (auto simp: set_leaves_of_lengths)
  then show ?thesis
    using assms lengths_positive [of file_data] by (simp add: CodeTableAdapter_lengths_iff set_sort_by)
qed

lemma two_deepest_first:
  assumes desc: "descending (depth (hd ls)) (tl ls)"
    and two: "2 \<le> length (filter (\<lambda>n. depth n = h) ls)"
    and top: "\<forall>n\<in>set ls. depth n \<le> h"
  shows "\<exists>a b rest. ls = a # b # rest \<and> depth a = depth b"
proof -
  obtain a rest0 where ls: "ls = a # rest0" using two by (cases ls) auto
  have "rest0 \<noteq> []" using two ls by (auto split: if_splits)
  then obtain b rest where r0: "rest0 = b # rest" by (cases rest0) auto
  have d: "depth b \<le> depth a" "descending (depth b) rest" using desc ls r0 by simp_all
  have "depth b = h"
  proof (rule ccontr)
    assume "depth b \<noteq> h"
    then have lt: "depth b < h" using top ls r0 by (simp add: le_neq_implies_less)
    have "\<forall>n\<in>set rest. depth n \<le> depth b" using d(2) descending_imp_sorted by blast
    then have "filter (\<lambda>n. depth n = h) (b # rest) = []" using lt by (auto simp: filter_empty_conv)
    then have "length (filter (\<lambda>n. depth n = h) ls) \<le> 1" using ls r0 by simp
    then show False using two by simp
  qed
  moreover have "depth a \<le> h" using top ls by simp
  ultimately have "depth a = depth b" using d(1) by simp
  then show ?thesis using ls r0 by blast
qed

lemma CodeTableAdapter_data_leaves:
  assumes built: "CodeTableAdapter_data mcl mdb data = Inr t"
  shows "\<exists>leaves. resolve data = Inr leaves \<and>
     buildTable mcl (sort_by LeafComparator leaves) zero_codes = Inr t \<and>
     map element leaves = map symbol (countFrequencies data) \<and>
     (\<forall>n\<in>set leaves. 1 \<le> depth n) \<and>
     ((\<exists>s. leaves = [\<lparr>element = s, depth = 1\<rparr>]) \<or>
      (kraft_sum leaves = 1 \<and> (\<forall>n\<in>set leaves. depth n < mcl)))"
proof -
  obtain leaves where res: "resolve data = Inr leaves" and ne: "data \<noteq> []"
    and bt: "buildTable mcl (sort_by LeafComparator leaves) zero_codes = Inr t"
    using CodeTableAdapter_data_built [OF built] by blast
  let ?ls = "sort_by LeafComparator leaves"
  have el: "map element leaves = map symbol (countFrequencies data)"
    and pos: "\<forall>n\<in>set leaves. 1 \<le> depth n"
    and shape: "(\<exists>s. leaves = [\<lparr>element = s, depth = 1\<rparr>]) \<or>
      (kraft_sum leaves = 1 \<and>
       (\<exists>h. 2 \<le> length (filter (\<lambda>n. depth n = h) leaves) \<and> (\<forall>n\<in>set leaves. depth n \<le> h)))"
    using resolve_nonempty [OF ne] res by auto
  have desc: "descending (depth (hd ?ls)) (tl ?ls)"
    and tail: "\<forall>n\<in>set (tl ?ls). depth n < mcl"
    using bt by (simp_all add: buildTable_iff)
  from shape have "(\<exists>s. leaves = [\<lparr>element = s, depth = 1\<rparr>]) \<or>
      (kraft_sum leaves = 1 \<and> (\<forall>n\<in>set leaves. depth n < mcl))"
  proof
    assume "\<exists>s. leaves = [\<lparr>element = s, depth = 1\<rparr>]"
    then show ?thesis by simp
  next
    assume multi: "kraft_sum leaves = 1 \<and>
       (\<exists>h. 2 \<le> length (filter (\<lambda>n. depth n = h) leaves) \<and> (\<forall>n\<in>set leaves. depth n \<le> h))"
    then obtain h where two: "2 \<le> length (filter (\<lambda>n. depth n = h) leaves)"
      and top: "\<forall>n\<in>set leaves. depth n \<le> h" by blast
    have "length (filter (\<lambda>n. depth n = h) ?ls) = length (filter (\<lambda>n. depth n = h) leaves)"
      by (rule count_filter_mset_cong) (rule mset_sort_by)
    then have "2 \<le> length (filter (\<lambda>n. depth n = h) ?ls)" using two by simp
    moreover have "\<forall>n\<in>set ?ls. depth n \<le> h" using top by (simp add: set_sort_by)
    ultimately obtain a b rest where ls: "?ls = a # b # rest" and eq: "depth a = depth b"
      using two_deepest_first [OF desc] by blast
    have "depth b < mcl" using tail ls by simp
    then have "depth a < mcl" using eq by simp
    then have "\<forall>n\<in>set ?ls. depth n < mcl" using tail ls by simp
    then show ?thesis using multi by (simp add: set_sort_by)
  qed
  then show ?thesis using res bt el pos by blast
qed

lemma kraft_sum_sort_by: "kraft_sum (sort_by lt ls) = kraft_sum ls"
  by (rule kraft_sum_mset) (rule mset_sort_by)

lemma hd_in_sorted:
  assumes "sort_by lt ls \<noteq> []"
  shows "hd (sort_by lt ls) \<in> set ls"
  using assms by (metis list.set_sel(1) set_sort_by)

text \<open>
  Claim C10 (pattern width). For a table built from a length descriptor whose used
  lengths satisfy Kraft's inequality, and for a table built from raw data (whose lengths
  satisfy it), with \<open>MAXIMUM_CODELENGTH\<close> not above the bit width of a pattern, every
  entry's pattern, read as a number, is below \<open>2^codelength\<close>. This holds for the unused
  entries too (pattern 0, codelength 0).
\<close>

theorem pattern_fits_codelength:
  fixes t :: "'a::len word CodeTable"
  assumes built:
      "(CodeTableAdapter_lengths mcl file_data = Inr t \<and>
        kraft_sum (leaves_of_lengths file_data) \<le> 1)
       \<or> CodeTableAdapter_data mcl mdb data = Inr t"
    and width: "mcl \<le> LENGTH('a)"
  shows "\<forall>s. unat (code (codes t s)) < 2 ^ codelength (codes t s)"
proof
  fix s
  from built show "unat (code (codes t s)) < 2 ^ codelength (codes t s)"
  proof
    assume a: "CodeTableAdapter_lengths mcl file_data = Inr t \<and>
        kraft_sum (leaves_of_lengths file_data) \<le> 1"
    let ?ls = "sort_by LeafComparator (leaves_of_lengths file_data)"
    have bt: "buildTable mcl ?ls zero_codes = Inr t"
      and rng: "\<forall>n\<in>set ?ls. 1 \<le> depth n \<and> depth n < mcl"
      using CodeTableAdapter_lengths_leaves a by blast+
    have "?ls \<noteq> []" using bt by (simp add: buildTable_iff)
    then have "hd ?ls \<in> set ?ls" by simp
    then have "depth (hd ?ls) < LENGTH('a)" using rng width by force
    moreover have "kraft_sum ?ls \<le> 1" using a by (simp only: kraft_sum_sort_by)
    ultimately show ?thesis using bt by (intro buildTable_fits)
  next
    assume "CodeTableAdapter_data mcl mdb data = Inr t"
    then obtain leaves where
      bt: "buildTable mcl (sort_by LeafComparator leaves) zero_codes = Inr t"
      and shape: "(\<exists>s. leaves = [\<lparr>element = s, depth = 1\<rparr>]) \<or>
        (kraft_sum leaves = 1 \<and> (\<forall>n\<in>set leaves. depth n < mcl))"
      using CodeTableAdapter_data_leaves by blast
    let ?ls = "sort_by LeafComparator leaves"
    from shape show ?thesis
    proof
      assume "\<exists>s. leaves = [\<lparr>element = s, depth = 1\<rparr>]"
      then obtain x where "leaves = [\<lparr>element = x, depth = 1\<rparr>]" by blast
      then have "buildTable mcl [\<lparr>element = x, depth = 1\<rparr>] zero_codes = Inr t"
        using bt by simp
      then have "codes t = zero_codes(x := CodeMake 1 0)"
        by (auto simp: buildTable_single)
      then show ?thesis by (simp add: zero_codes_def CodeMake_def)
    next
      assume m: "kraft_sum leaves = 1 \<and> (\<forall>n\<in>set leaves. depth n < mcl)"
      have "?ls \<noteq> []" using bt by (simp add: buildTable_iff)
      then have "hd ?ls \<in> set leaves" by (rule hd_in_sorted)
      then have "depth (hd ?ls) < LENGTH('a)" using m width by force
      moreover have "kraft_sum ?ls \<le> 1" using m by (simp add: kraft_sum_sort_by)
      ultimately show ?thesis using bt by (intro buildTable_fits)
    qed
  qed
qed

lemma example_incomplete_leaves:
  "leaves_of_lengths ([2, 1] @ replicate 254 0) =
     [\<lparr>element = 0, depth = 2\<rparr>, \<lparr>element = 1, depth = 1\<rparr>]"
  by code_simp

lemma example_incomplete_kraft: "kraft_sum (leaves_of_lengths ([2, 1] @ replicate 254 0)) \<le> 1"
  by (simp only: example_incomplete_leaves kraft_sum_def) simp

lemma example_incomplete_built:
  "\<not> isl (CodeTableAdapter_lengths 32 ([2, 1] @ replicate 254 0) :: error + 32 word CodeTable)"
  by code_simp

theorem pattern_fits_codelength_witness:
  "\<exists>t :: 32 word CodeTable.
     CodeTableAdapter_lengths 32 ([2, 1] @ replicate 254 0) = Inr t \<and>
     kraft_sum (leaves_of_lengths ([2, 1] @ replicate 254 0)) \<le> 1 \<and>
     (32::nat) \<le> LENGTH(32) \<and>
     unat (code (codes t 0)) < 2 ^ codelength (codes t 0)"
proof -
  obtain t :: "32 word CodeTable" where t: "CodeTableAdapter_lengths 32 ([2, 1] @ replicate 254 0) = Inr t"
    using example_incomplete_built by (metis sum.collapse(2))
  have w: "(32::nat) \<le> LENGTH(32)" by simp
  have "(CodeTableAdapter_lengths 32 ([2, 1] @ replicate 254 0) = Inr t \<and>
      kraft_sum (leaves_of_lengths ([2, 1] @ replicate 254 0)) \<le> 1)
      \<or> CodeTableAdapter_data 32 0 [] = Inr t"
    using t example_incomplete_kraft by simp
  from pattern_fits_codelength [OF this w] t example_incomplete_kraft
  show ?thesis by auto
qed

text \<open>
  Claim C4 (prefix-freeness), as stated: Kraft's inequality alone is not enough. The
  descriptor with length 2 for symbol 0 and length 1 for symbol 1 has Kraft sum 3/4; the
  builder gives symbol 0 the pattern 00 and symbol 1 the pattern (0 + 1) >> 1 = 0, and
  the code of symbol 1 is a prefix of the code of symbol 0.
\<close>

theorem prefix_free_kraft_counterexample:
  "kraft_sum (leaves_of_lengths ([2, 1] @ replicate 254 0)) \<le> 1 \<and>
   (case CodeTableAdapter_lengths 32 ([2, 1] @ replicate 254 0) :: error + 32 word CodeTable of
      Inl e \<Rightarrow> False
    | Inr t \<Rightarrow> codelength (codes t 0) \<noteq> 0 \<and> codelength (codes t 1) \<noteq> 0 \<and>
              is_prefix (codes t 1) (codes t 0))"
proof -
  have "(case CodeTableAdapter_lengths 32 ([2, 1] @ replicate 254 0) :: error + 32 word CodeTable of
      Inl e \<Rightarrow> False
    | Inr t \<Rightarrow> codelength (codes t 0) \<noteq> 0 \<and> codelength (codes t 1) \<noteq> 0 \<and>
              is_prefix (codes t 1) (codes t 0))"
    by code_simp
  then show ?thesis using example_incomplete_kraft by simp
qed

text \<open>
  Claim C4, amended. When the Kraft sum of the descriptor's used lengths is exactly 1, or
  the descriptor has a single used symbol, and for every table built from raw data (the
  Resolver yields exactly these two shapes), no assigned code is a bit-prefix of the
  assigned code of another symbol. \<open>MAXIMUM_CODELENGTH\<close> is not above the bit width of a
  pattern.
\<close>

theorem prefix_free_complete_code:
  fixes t :: "'a::len word CodeTable"
  assumes built:
      "(CodeTableAdapter_lengths mcl file_data = Inr t \<and>
        (kraft_sum (leaves_of_lengths file_data) = 1 \<or> length (leaves_of_lengths file_data) = 1))
       \<or> CodeTableAdapter_data mcl mdb data = Inr t"
    and width: "mcl \<le> LENGTH('a)"
  shows "\<forall>s s'. s \<noteq> s' \<and> codelength (codes t s) \<noteq> 0 \<and> codelength (codes t s') \<noteq> 0 \<longrightarrow>
           \<not> is_prefix (codes t s) (codes t s')"
proof -
  have "\<exists>ls. buildTable mcl ls zero_codes = Inr t \<and>
      (length ls = 1 \<or> (kraft_sum ls = 1 \<and> depth (hd ls) < LENGTH('a)))"
    using built
  proof
    assume a: "CodeTableAdapter_lengths mcl file_data = Inr t \<and>
        (kraft_sum (leaves_of_lengths file_data) = 1 \<or> length (leaves_of_lengths file_data) = 1)"
    let ?ls = "sort_by LeafComparator (leaves_of_lengths file_data)"
    have bt: "buildTable mcl ?ls zero_codes = Inr t"
      and rng: "\<forall>n\<in>set ?ls. 1 \<le> depth n \<and> depth n < mcl"
      using CodeTableAdapter_lengths_leaves a by blast+
    have "?ls \<noteq> []" using bt by (simp add: buildTable_iff)
    then have "hd ?ls \<in> set ?ls" by simp
    then have "depth (hd ?ls) < LENGTH('a)" using rng width by force
    moreover have "kraft_sum ?ls = 1 \<or> length ?ls = 1"
      using a by (simp add: kraft_sum_sort_by length_sort_by)
    ultimately show ?thesis using bt by blast
  next
    assume "CodeTableAdapter_data mcl mdb data = Inr t"
    then obtain leaves where
      bt: "buildTable mcl (sort_by LeafComparator leaves) zero_codes = Inr t"
      and shape: "(\<exists>s. leaves = [\<lparr>element = s, depth = 1\<rparr>]) \<or>
        (kraft_sum leaves = 1 \<and> (\<forall>n\<in>set leaves. depth n < mcl))"
      using CodeTableAdapter_data_leaves by blast
    let ?ls = "sort_by LeafComparator leaves"
    have ne: "?ls \<noteq> []" using bt by (simp add: buildTable_iff)
    from shape have "length ?ls = 1 \<or> (kraft_sum ?ls = 1 \<and> depth (hd ?ls) < LENGTH('a))"
    proof
      assume "\<exists>s. leaves = [\<lparr>element = s, depth = 1\<rparr>]"
      then show ?thesis by (auto simp: length_sort_by)
    next
      assume m: "kraft_sum leaves = 1 \<and> (\<forall>n\<in>set leaves. depth n < mcl)"
      have "hd ?ls \<in> set leaves" using ne by (rule hd_in_sorted)
      then have "depth (hd ?ls) < LENGTH('a)" using m width by force
      then show ?thesis using m by (simp add: kraft_sum_sort_by)
    qed
    then show ?thesis using bt by blast
  qed
  then obtain ls where bt: "buildTable mcl ls zero_codes = Inr t"
    and shape: "length ls = 1 \<or> (kraft_sum ls = 1 \<and> depth (hd ls) < LENGTH('a))" by blast
  show ?thesis using buildTable_prefix_free [OF bt shape] by blast
qed

lemma example_complete_leaves:
  "leaves_of_lengths (replicate 65 0 @ [1, 2, 2] @ replicate 188 0) =
     [\<lparr>element = 65, depth = 1\<rparr>, \<lparr>element = 66, depth = 2\<rparr>, \<lparr>element = 67, depth = 2\<rparr>]"
  by code_simp

lemma example_complete_entries:
  "(case CodeTableAdapter_lengths 32 (replicate 65 0 @ [1, 2, 2] @ replicate 188 0)
          :: error + 32 word CodeTable of
      Inl e \<Rightarrow> False
    | Inr t \<Rightarrow> codelength (codes t 65) \<noteq> 0 \<and> codelength (codes t 66) \<noteq> 0)"
  by code_simp

theorem prefix_free_complete_code_witness:
  "\<exists>t :: 32 word CodeTable.
     CodeTableAdapter_lengths 32 (replicate 65 0 @ [1, 2, 2] @ replicate 188 0) = Inr t \<and>
     kraft_sum (leaves_of_lengths (replicate 65 0 @ [1, 2, 2] @ replicate 188 0)) = 1 \<and>
     (32::nat) \<le> LENGTH(32) \<and>
     (65::byte) \<noteq> 66 \<and> codelength (codes t 65) \<noteq> 0 \<and> codelength (codes t 66) \<noteq> 0 \<and>
     \<not> is_prefix (codes t 65) (codes t 66)"
proof -
  let ?fd = "replicate 65 0 @ [1, 2, 2] @ replicate 188 (0::byte)"
  obtain t :: "32 word CodeTable" where t: "CodeTableAdapter_lengths 32 ?fd = Inr t"
    using example_lengths_built by (metis sum.collapse(2))
  have k: "kraft_sum (leaves_of_lengths ?fd) = 1"
    by (simp only: example_complete_leaves kraft_sum_def) simp
  have w: "(32::nat) \<le> LENGTH(32)" by simp
  have u: "codelength (codes t 65) \<noteq> 0 \<and> codelength (codes t 66) \<noteq> 0"
    using example_complete_entries t by simp
  have "(CodeTableAdapter_lengths 32 ?fd = Inr t \<and>
      (kraft_sum (leaves_of_lengths ?fd) = 1 \<or> length (leaves_of_lengths ?fd) = 1))
      \<or> CodeTableAdapter_data 32 0 [] = Inr t"
    using t k by simp
  from prefix_free_complete_code [OF this w] t k u show ?thesis by auto
qed

section \<open>Round trip through the lengths\<close>

subsection \<open>Writing the lengths and reading them back\<close>

lemma all_symbols_nth: "all_symbols ! unat (s :: byte) = s"
  using unat_byte_less [of s] by (simp add: all_symbols_def ALPHABET_SIZE_def)

lemma length_write_lengths: "length (write_lengths t) = ALPHABET_SIZE"
  by (simp add: write_lengths_def all_symbols_def)

lemma write_lengths_nth:
  "write_lengths t ! unat (s :: byte) = word_of_nat (codelength (codes t s))"
proof -
  have "unat s < length all_symbols"
    using unat_byte_less [of s] by (simp add: all_symbols_def ALPHABET_SIZE_def)
  then show ?thesis by (simp add: write_lengths_def all_symbols_nth)
qed

lemma leaves_of_written_lengths:
  assumes "\<forall>s. codelength (codes t s) < 256"
  shows "leaves_of_lengths (write_lengths t) =
     map (\<lambda>s. \<lparr>element = s, depth = codelength (codes t s)\<rparr>)
         (filter (\<lambda>s. codelength (codes t s) \<noteq> 0) all_symbols)"
proof -
  have u: "unat (word_of_nat (codelength (codes t s)) :: byte) = codelength (codes t s)" for s
    using assms by (simp add: unat_of_nat)
  have z: "(word_of_nat (codelength (codes t s)) :: byte) \<noteq> 0 \<longleftrightarrow> codelength (codes t s) \<noteq> 0" for s
    using u [of s] by (metis unat_eq_0 unsigned_0 unat_gt_0 neq0_conv)
  show ?thesis
    by (simp add: leaves_of_lengths_alt write_lengths_nth u z)
qed

lemma sort_by_sorted:
  assumes "sorted_wrt LeafComparator ls"
  shows "sort_by LeafComparator ls = ls"
proof (rule sorted_wrt_unique [of LeafComparator])
  show "\<not> LeafComparator a a" for a by (rule LeafComparator_irrefl)
  show "LeafComparator a b \<Longrightarrow> LeafComparator b c \<Longrightarrow> LeafComparator a c" for a b c
    by (rule LeafComparator_trans)
  have "distinct ls"
    using assms LeafComparator_irrefl by (induction ls) auto
  then show "sorted_wrt LeafComparator (sort_by LeafComparator ls)" by (rule sorted_leaves)
qed (simp_all add: assms set_sort_by)

lemma distinct_leaves_of_elements: "distinct (map element ls) \<Longrightarrow> distinct ls"
  by (simp add: distinct_map)

text \<open>
  Claim C2 (round-trip via lengths). When the constructor from raw data succeeds, writing
  the 256 codelengths of its table and constructing from that descriptor succeeds too
  and gives the same table: the same code array (\<open>operator==\<close>) and the same
  \<open>max_codelength\<close>. \<open>MAXIMUM_CODELENGTH\<close> is at least 2, the least value that admits a
  code at all.
\<close>

theorem roundtrip_via_lengths:
  fixes t :: "'a::len word CodeTable"
  assumes built: "CodeTableAdapter_data mcl mdb data = Inr t" and mcl: "1 < mcl"
  shows "\<exists>t'. CodeTableAdapter_lengths mcl (write_lengths t) = Inr t' \<and> table_eq t t' \<and> t' = t"
proof -
  obtain leaves where res: "resolve data = Inr leaves"
    and bt: "buildTable mcl (sort_by LeafComparator leaves) zero_codes = Inr t"
    and el: "map element leaves = map symbol (countFrequencies data)"
    and pos: "\<forall>n\<in>set leaves. 1 \<le> depth n"
    and shape: "(\<exists>s. leaves = [\<lparr>element = s, depth = 1\<rparr>]) \<or>
        (kraft_sum leaves = 1 \<and> (\<forall>n\<in>set leaves. depth n < mcl))"
    using CodeTableAdapter_data_leaves [OF built] by blast
  let ?ls = "sort_by LeafComparator leaves"
  have below: "\<forall>n\<in>set ?ls. depth n < mcl" using shape mcl by (auto simp: set_sort_by)
  have byte: "\<forall>n\<in>set ?ls. depth n < 256"
    using resolve_depths_small [OF res] by (simp add: set_sort_by)
  have pos': "\<forall>n\<in>set ?ls. 1 \<le> depth n" using pos by (simp add: set_sort_by)
  have dist_el: "distinct (map element ?ls)"
    using el distinct_symbols_countFrequencies [of data] by (simp add: distinct_map_sort_by)
  then have dist: "distinct ?ls" by (rule distinct_leaves_of_elements)
  have "distinct leaves" using dist by (simp add: distinct_sort_by)
  then have sorted: "sorted_wrt LeafComparator ?ls" by (rule sorted_leaves)
  have entry: "codes t (element (?ls ! i)) = assigned_codes ?ls ! i" if "i < length ?ls" for i
    using bt dist_el that by (rule buildTable_entry)
  have cl_in: "codelength (codes t (element n)) = depth n" if n: "n \<in> set ?ls" for n
  proof -
    obtain i where "i < length ?ls" "?ls ! i = n" using n by (meson in_set_conv_nth)
    then show ?thesis using entry [of i] by (simp add: codelength_assigned_nth)
  qed
  have cl_cases: "codelength (codes t s) = 0 \<or>
      (\<exists>n\<in>set ?ls. element n = s \<and> codelength (codes t s) = depth n)" for s
  proof -
    from buildTable_entry_cases [OF bt, of s] show ?thesis
    proof
      assume "codes t s = zero_codes s"
      then show ?thesis by (simp add: zero_codes_def)
    next
      assume "\<exists>i<length ?ls. element (?ls ! i) = s \<and> codes t s = assigned_codes ?ls ! i"
      then obtain i where "i < length ?ls" "element (?ls ! i) = s"
        "codes t s = assigned_codes ?ls ! i" by blast
      then have "?ls ! i \<in> set ?ls \<and> element (?ls ! i) = s \<and>
          codelength (codes t s) = depth (?ls ! i)"
        by (simp add: codelength_assigned_nth)
      then show ?thesis by blast
    qed
  qed
  have small: "\<forall>s. codelength (codes t s) < mcl"
  proof
    fix s show "codelength (codes t s) < mcl"
      using cl_cases [of s] below mcl by auto
  qed
  have "\<forall>s. codelength (codes t s) < 256"
  proof
    fix s show "codelength (codes t s) < 256"
      using cl_cases [of s] byte by auto
  qed
  then have written: "leaves_of_lengths (write_lengths t) =
      map (\<lambda>s. \<lparr>element = s, depth = codelength (codes t s)\<rparr>)
          (filter (\<lambda>s. codelength (codes t s) \<noteq> 0) all_symbols)"
    by (rule leaves_of_written_lengths)
  have set_eq: "set (leaves_of_lengths (write_lengths t)) = set ?ls"
  proof
    show "set (leaves_of_lengths (write_lengths t)) \<subseteq> set ?ls"
    proof
      fix n assume "n \<in> set (leaves_of_lengths (write_lengths t))"
      then obtain s where n: "n = \<lparr>element = s, depth = codelength (codes t s)\<rparr>"
        and nz: "codelength (codes t s) \<noteq> 0"
        unfolding written by auto
      have "\<exists>m\<in>set ?ls. element m = s \<and> codelength (codes t s) = depth m"
        using cl_cases [of s] nz by simp
      then obtain m where m: "m \<in> set ?ls" and "element m = s"
        "codelength (codes t s) = depth m"
        by blast
      then have "n = m" using n by simp
      then show "n \<in> set ?ls" using m by simp
    qed
    show "set ?ls \<subseteq> set (leaves_of_lengths (write_lengths t))"
    proof
      fix n assume n: "n \<in> set ?ls"
      then have "codelength (codes t (element n)) = depth n" by (rule cl_in)
      moreover have "depth n \<noteq> 0" using pos' n by force
      ultimately have "\<lparr>element = element n, depth = codelength (codes t (element n))\<rparr> = n \<and>
          codelength (codes t (element n)) \<noteq> 0" by simp
      then show "n \<in> set (leaves_of_lengths (write_lengths t))"
        unfolding written by (auto simp: set_all_symbols intro!: image_eqI [where x = "element n"])
    qed
  qed
  have "distinct (leaves_of_lengths (write_lengths t))"
    using distinct_elements_leaves_of_lengths by (rule distinct_leaves_of_elements)
  then have "sort_by LeafComparator (leaves_of_lengths (write_lengths t)) =
      sort_by LeafComparator ?ls"
    using dist set_eq by (rule sort_leaves_unique)
  also have "\<dots> = ?ls" using sorted by (rule sort_by_sorted)
  finally have same: "sort_by LeafComparator (leaves_of_lengths (write_lengths t)) = ?ls" .
  have "\<forall>s::byte. write_lengths t ! unat s \<noteq> 0 \<longrightarrow> unat (write_lengths t ! unat s) < mcl"
  proof (intro allI impI)
    fix s :: byte
    have "unat (write_lengths t ! unat s) \<le> codelength (codes t s)"
      by (simp add: write_lengths_nth unat_of_nat)
    then show "unat (write_lengths t ! unat s) < mcl" using small by (meson le_less_trans)
  qed
  then have "CodeTableAdapter_lengths mcl (write_lengths t) = Inr t"
    using bt same by (simp add: CodeTableAdapter_lengths_iff length_write_lengths)
  then show ?thesis by (simp add: table_eq_def list_all_iff)
qed

theorem roundtrip_via_lengths_witness:
  "\<exists>t :: 32 word CodeTable.
     CodeTableAdapter_data 32 100 [1, 1, 1, 2, 2, 3] = Inr t \<and> (1::nat) < 32 \<and>
     CodeTableAdapter_lengths 32 (write_lengths t) = Inr t \<and> table_eq t t"
proof -
  obtain t :: "32 word CodeTable" where t: "CodeTableAdapter_data 32 100 [1, 1, 1, 2, 2, 3] = Inr t"
    using example_data_built by (metis sum.collapse(2))
  have m: "(1::nat) < 32" by simp
  from roundtrip_via_lengths [OF t m] t show ?thesis by auto
qed

section \<open>Round trip through the encoded stream\<close>

subsection \<open>Packing bits into words\<close>

lemma bits_of_word_of_bits:
  assumes "length bs = 32"
  shows "bits_of_word (word_of_bits bs) = bs"
proof (rule nth_equalityI)
  show "length (bits_of_word (word_of_bits bs)) = length bs"
    using assms by (simp add: bits_of_word_def)
next
  fix i assume "i < length (bits_of_word (word_of_bits bs))"
  then have i: "i < 32" by (simp add: bits_of_word_def)
  then have "bits_of_word (word_of_bits bs) ! i = bit (word_of_bits bs) (31 - i)"
    by (simp add: bits_of_word_def)
  also have "\<dots> = rev bs ! (31 - i)"
    using assms i by (auto simp: word_of_bits_def bit_horner_sum_bit_word_iff)
  also have "\<dots> = bs ! i" using assms i by (simp add: rev_nth)
  finally show "bits_of_word (word_of_bits bs) ! i = bs ! i" .
qed

lemma concat_chunks:
  "length xs = 32 * n \<Longrightarrow> concat (map (\<lambda>k. take 32 (drop (32 * k) xs)) [0..<n]) = xs"
proof (induction n arbitrary: xs)
  case 0
  then show ?case by simp
next
  case (Suc n)
  have "[0..<Suc n] = 0 # map Suc [0..<n]" by (simp add: upt_conv_Cons map_Suc_upt del: upt_Suc)
  then have "concat (map (\<lambda>k. take 32 (drop (32 * k) xs)) [0..<Suc n]) =
      take 32 xs @ concat (map (\<lambda>k. take 32 (drop (32 * k) (drop 32 xs))) [0..<n])"
    by (simp add: comp_def add.commute del: upt_Suc)
  also have "concat (map (\<lambda>k. take 32 (drop (32 * k) (drop 32 xs))) [0..<n]) = drop 32 xs"
    using Suc.prems by (intro Suc.IH) simp
  finally show ?case by simp
qed

lemma padded_length:
  "\<exists>n. length (bits @ replicate (trailing_zero_bits bits) False) = 32 * n"
proof -
  have "(length bits + (32 - length bits mod 32) mod 32) mod 32 = 0"
    by (metis add.commute mod_add_right_eq mod_less_divisor le_add_diff_inverse2 mod_self
        less_imp_le zero_less_numeral)
  then show ?thesis by (auto simp: trailing_zero_bits_def)
qed

lemma words_bits_pack:
  "words_bits (pack_words bits) = bits @ replicate (trailing_zero_bits bits) False"
proof -
  let ?p = "bits @ replicate (trailing_zero_bits bits) False"
  obtain n where n: "length ?p = 32 * n" using padded_length by blast
  have "map bits_of_word (map (\<lambda>k. word_of_bits (take 32 (drop (32 * k) ?p))) [0..<n]) =
        map (\<lambda>k. take 32 (drop (32 * k) ?p)) [0..<n]"
    unfolding map_map comp_def
  proof (rule map_cong [OF refl])
    fix k assume "k \<in> set [0..<n]"
    then have "length (take 32 (drop (32 * k) ?p)) = 32" using n by simp
    then show "bits_of_word (word_of_bits (take 32 (drop (32 * k) ?p))) =
        take 32 (drop (32 * k) ?p)" by (rule bits_of_word_of_bits)
  qed
  moreover have "length ?p div 32 = n" using n by simp
  then have "pack_words bits = map (\<lambda>k. word_of_bits (take 32 (drop (32 * k) ?p))) [0..<n]"
    by (simp only: pack_words_def Let_def)
  ultimately have "words_bits (pack_words bits) =
      concat (map (\<lambda>k. take 32 (drop (32 * k) ?p)) [0..<n])"
    by (simp only: words_bits_def)
  then show ?thesis by (simp only: concat_chunks [OF n])
qed

lemma stream_of_packed:
  "take (length (words_bits (pack_words bits)) - trailing_zero_bits bits)
        (words_bits (pack_words bits)) = bits"
  by (simp add: words_bits_pack)

subsection \<open>Matching one codeword\<close>

lemma drop_bit_step:
  fixes c :: "'a::len word"
  shows "2 * drop_bit (Suc m) c + of_bool (bit c m) = drop_bit m c"
proof -
  let ?x = "drop_bit m c"
  have half: "drop_bit (Suc m) c = ?x div 2" by (simp add: drop_bit_Suc drop_bit_half)
  have par: "bit c m \<longleftrightarrow> odd ?x" by (rule bit_iff_odd_drop_bit)
  have "?x div 2 * 2 + ?x mod 2 = ?x" by (rule div_mult_mod_eq)
  moreover have "?x mod 2 = of_bool (odd ?x)" by (rule mod_2_eq_odd)
  ultimately have "2 * (?x div 2) + of_bool (odd ?x) = ?x" by (simp add: mult.commute)
  then show ?thesis by (simp only: half par)
qed

lemma length_code_bits [simp]: "length (code_bits c) = codelength c"
  by (simp add: code_bits_def)

lemma code_bits_nth:
  "k < codelength c \<Longrightarrow> code_bits c ! k = bit (code c) (codelength c - 1 - k)"
  by (simp add: code_bits_def)

lemma match_code_reads:
  fixes t :: "'a::len word CodeTable"
  assumes uniq: "\<forall>s'. s' \<noteq> s \<longrightarrow> codelength (codes t s') \<noteq> 0 \<longrightarrow>
                   \<not> is_prefix (codes t s') (codes t s)"
  shows "k < codelength (codes t s) \<Longrightarrow> codelength (codes t s) \<le> k + fuel \<Longrightarrow>
     match_code t fuel (drop_bit (codelength (codes t s) - k) (code (codes t s))) k
       (drop k (code_bits (codes t s)) @ rest) = Inr (s, rest)"
proof (induction fuel arbitrary: k)
  case 0
  then show ?case by simp
next
  case (Suc fuel)
  let ?c = "codes t s"
  let ?l = "codelength ?c"
  let ?acc = "drop_bit (?l - Suc k) (code ?c)"
  let ?P = "\<lambda>s'. codelength (codes t s') = Suc k \<and> code (codes t s') = ?acc"
  have bits: "drop k (code_bits ?c) = bit (code ?c) (?l - Suc k) # drop (Suc k) (code_bits ?c)"
    using Suc.prems(1) Cons_nth_drop_Suc [of k "code_bits ?c"] by (simp add: code_bits_nth)
  have "Suc (?l - Suc k) = ?l - k" using Suc.prems(1) by simp
  then have acc: "2 * drop_bit (?l - k) (code ?c) + of_bool (bit (code ?c) (?l - Suc k)) = ?acc"
    using drop_bit_step [of "?l - Suc k" "code ?c"] by simp
  have other: "\<not> ?P s'" if ne: "s' \<noteq> s" for s'
  proof
    assume p: "?P s'"
    then have "is_prefix (codes t s') ?c" using Suc.prems(1) by (simp add: is_prefix_def)
    moreover have "codelength (codes t s') \<noteq> 0" using p by simp
    ultimately show False using uniq ne by blast
  qed
  have step: "match_code t (Suc fuel) (drop_bit (?l - k) (code ?c)) k
        (drop k (code_bits ?c) @ rest) =
      (case find ?P all_symbols of
         Some s' \<Rightarrow> Inr (s', drop (Suc k) (code_bits ?c) @ rest)
       | None \<Rightarrow> match_code t fuel ?acc (Suc k) (drop (Suc k) (code_bits ?c) @ rest))"
    by (simp only: bits append_Cons match_code.simps Let_def acc)
  show ?case
  proof (cases "Suc k < ?l")
    case True
    have "\<not> ?P s" using True by simp
    then have "\<not> ?P x" for x using other [of x] by (cases "x = s") simp_all
    then have "\<forall>x. \<not> ?P x" by simp
    then have "\<not> (\<exists>x. x \<in> set all_symbols \<and> ?P x)" by blast
    then have "find ?P all_symbols = None" by (rule find_None_iff [THEN iffD2])
    moreover have "match_code t fuel ?acc (Suc k) (drop (Suc k) (code_bits ?c) @ rest) = Inr (s, rest)"
      using True Suc.prems(2) by (intro Suc.IH) simp_all
    ultimately show ?thesis by (simp only: step option.case)
  next
    case False
    then have last: "Suc k = ?l" using Suc.prems(1) by simp
    then have "?P s" by simp
    moreover have "s \<in> set all_symbols" by (simp add: set_all_symbols)
    ultimately have "\<exists>x. x \<in> set all_symbols \<and> ?P x" by blast
    then have "find ?P all_symbols \<noteq> None" using find_None_iff [of ?P all_symbols] by blast
    then obtain s' where f: "find ?P all_symbols = Some s'" by blast
    then have "?P s'" by (metis (mono_tags, lifting) find_Some_iff)
    then have "s' = s" using other by blast
    moreover have "drop (Suc k) (code_bits ?c) = []" using last by simp
    ultimately show ?thesis using f by (simp only: step option.case append_Nil)
  qed
qed

lemma drop_bit_all:
  fixes w :: "'a::len word"
  assumes "unat w < 2 ^ l"
  shows "drop_bit l w = 0"
proof -
  have "unat (drop_bit l w) = drop_bit l (unat w)" by (rule unat_drop_bit_eq)
  also have "\<dots> = unat w div 2 ^ l" by (rule drop_bit_eq_div)
  finally have "unat (drop_bit l w) = 0" using assms by simp
  then show ?thesis by (simp add: unsigned_eq_0_iff)
qed

lemma decode_symbol_reads:
  fixes t :: "'a::len word CodeTable"
  assumes uniq: "\<forall>s'. s' \<noteq> s \<longrightarrow> codelength (codes t s') \<noteq> 0 \<longrightarrow>
                   \<not> is_prefix (codes t s') (codes t s)"
    and used: "codelength (codes t s) \<noteq> 0"
    and le: "codelength (codes t s) \<le> max_codelength (info t)"
    and fits: "unat (code (codes t s)) < 2 ^ codelength (codes t s)"
  shows "decode_symbol t (code_bits (codes t s) @ rest) = Inr (s, rest)"
proof -
  have "match_code t (max_codelength (info t))
      (drop_bit (codelength (codes t s) - 0) (code (codes t s))) 0
      (drop 0 (code_bits (codes t s)) @ rest) = Inr (s, rest)"
    using uniq used le by (intro match_code_reads) simp_all
  moreover have "drop_bit (codelength (codes t s)) (code (codes t s)) = 0"
    using fits by (rule drop_bit_all)
  ultimately show ?thesis by (simp add: decode_symbol_def)
qed

lemma decode_symbols_reads:
  fixes t :: "'a::len word CodeTable"
  assumes ok: "\<forall>s\<in>set data.
      (\<forall>s'. s' \<noteq> s \<longrightarrow> codelength (codes t s') \<noteq> 0 \<longrightarrow> \<not> is_prefix (codes t s') (codes t s)) \<and>
      codelength (codes t s) \<noteq> 0 \<and> codelength (codes t s) \<le> max_codelength (info t) \<and>
      unat (code (codes t s)) < 2 ^ codelength (codes t s)"
  shows "decode_symbols t (length data) (encode_bits t data @ rest) = Inr data"
  using ok
proof (induction data)
  case Nil
  then show ?case by simp
next
  case (Cons s data)
  have "decode_symbol t (code_bits (codes t s) @ (encode_bits t data @ rest)) =
      Inr (s, encode_bits t data @ rest)"
    using Cons.prems by (intro decode_symbol_reads) simp_all
  moreover have "decode_symbols t (length data) (encode_bits t data @ rest) = Inr data"
    using Cons.prems by (intro Cons.IH) simp
  ultimately show ?case by (simp add: encode_bits_def)
qed

subsection \<open>Decoding what was encoded\<close>

lemma CodeTableAdapter_data_decodable:
  fixes t :: "'a::len word CodeTable"
  assumes built: "CodeTableAdapter_data mcl mdb data = Inr t" and mcl: "1 < mcl" "mcl \<le> LENGTH('a)"
    and s: "s \<in> set data"
  shows "(\<forall>s'. s' \<noteq> s \<longrightarrow> codelength (codes t s') \<noteq> 0 \<longrightarrow> \<not> is_prefix (codes t s') (codes t s)) \<and>
      codelength (codes t s) \<noteq> 0 \<and> codelength (codes t s) \<le> max_codelength (info t) \<and>
      unat (code (codes t s)) < 2 ^ codelength (codes t s)"
proof -
  obtain leaves where bt: "buildTable mcl (sort_by LeafComparator leaves) zero_codes = Inr t"
    and el: "map element leaves = map symbol (countFrequencies data)"
    and pos: "\<forall>n\<in>set leaves. 1 \<le> depth n"
    and shape: "(\<exists>s. leaves = [\<lparr>element = s, depth = 1\<rparr>]) \<or>
        (kraft_sum leaves = 1 \<and> (\<forall>n\<in>set leaves. depth n < mcl))"
    using CodeTableAdapter_data_leaves [OF built] by blast
  let ?ls = "sort_by LeafComparator leaves"
  have ne: "?ls \<noteq> []" using bt by (simp add: buildTable_iff)
  have below: "\<forall>n\<in>set leaves. depth n < mcl" using shape mcl(1) by auto
  have "hd ?ls \<in> set leaves" using ne by (rule hd_in_sorted)
  then have width: "depth (hd ?ls) < LENGTH('a)" using below mcl(2) by force
  have kraft: "kraft_sum ?ls \<le> 1"
    using shape by (auto simp: kraft_sum_sort_by) (simp add: kraft_sum_def)
  have shape': "length ?ls = 1 \<or> (kraft_sum ?ls = 1 \<and> depth (hd ?ls) < LENGTH('a))"
    using shape width by (auto simp: kraft_sum_sort_by length_sort_by)
  have pos': "\<forall>n\<in>set ?ls. 1 \<le> depth n" using pos by (simp add: set_sort_by)
  have dist_el: "distinct (map element ?ls)"
    using el distinct_symbols_countFrequencies [of data] by (simp add: distinct_map_sort_by)
  have "set (map element leaves) = set data"
    using set_symbols_countFrequencies [of data] by (simp only: el)
  then have "set (map element ?ls) = set data" by (simp add: set_sort_by)
  then obtain i where i: "i < length ?ls" "element (?ls ! i) = s"
    using s by (metis (no_types, lifting) in_set_conv_nth length_map nth_map)
  have "codes t (element (?ls ! i)) = assigned_codes ?ls ! i"
    using bt dist_el i(1) by (rule buildTable_entry)
  then have "codelength (codes t s) = depth (?ls ! i)"
    using i by (simp add: codelength_assigned_nth)
  moreover have "1 \<le> depth (?ls ! i)" using pos' i(1) by simp
  ultimately have used: "codelength (codes t s) \<noteq> 0" by simp
  have le: "codelength (codes t s) \<le> max_codelength (info t)"
    using buildTable_max [OF bt dist_el pos'] by blast
  have fits: "unat (code (codes t s)) < 2 ^ codelength (codes t s)"
    using bt width kraft by (rule buildTable_fits)
  have "\<not> is_prefix (codes t s') (codes t s)"
    if "s' \<noteq> s" "codelength (codes t s') \<noteq> 0" for s'
    using bt shape' that used by (rule buildTable_prefix_free)
  then show ?thesis using used le fits by blast
qed

lemma Decode_single_block:
  assumes "decode_symbols t (length data) (encode_bits t data) = Inr data"
  shows "Decode t (encode_single_block t data) = Inr data"
proof -
  let ?bits = "encode_bits t data"
  have st: "take (length (words_bits (pack_words ?bits)) - trailing_zero_bits ?bits)
      (words_bits (pack_words ?bits)) = ?bits" by (rule stream_of_packed)
  have "Decode t (encode_single_block t data) =
      decode_blocks t (take (length (words_bits (pack_words ?bits)) - trailing_zero_bits ?bits)
        (words_bits (pack_words ?bits))) (length (pack_words ?bits)) [0] [length data] 0 (Suc 0)"
    by (simp add: Decode_def encode_single_block_def Let_def del: decode_blocks.simps)
  also have "\<dots> = decode_blocks t ?bits (length (pack_words ?bits)) [0] [length data] 0 (Suc 0)"
    by (simp only: st)
  also have "\<dots> = Inr data" using assms by simp
  finally show ?thesis .
qed

text \<open>Whenever the table is built, decoding the single encoded block gives the data
  back.\<close>

lemma roundtrip_when_built:
  fixes t :: "32 word CodeTable"
  assumes built: "CodeTableAdapter_data mcl mdb data = Inr t" and mcl: "1 < mcl" "mcl \<le> 32"
  shows "roundtrip mcl mdb data = Inr data"
proof -
  have "mcl \<le> LENGTH(32)" using mcl(2) by simp
  then have "\<forall>s\<in>set data.
      (\<forall>s'. s' \<noteq> s \<longrightarrow> codelength (codes t s') \<noteq> 0 \<longrightarrow> \<not> is_prefix (codes t s') (codes t s)) \<and>
      codelength (codes t s) \<noteq> 0 \<and> codelength (codes t s) \<le> max_codelength (info t) \<and>
      unat (code (codes t s)) < 2 ^ codelength (codes t s)"
    using CodeTableAdapter_data_decodable [OF built mcl(1)] by blast
  then have "decode_symbols t (length data) (encode_bits t data @ []) = Inr data"
    by (rule decode_symbols_reads)
  then have "Decode t (encode_single_block t data) = Inr data"
    by (intro Decode_single_block) simp
  then show ?thesis using built by (simp add: roundtrip_def)
qed

text \<open>
  Claim C3 (decode correctness). The claim holds for every buffer on which the table is
  built (\<open>roundtrip_when_built\<close>). On the empty buffer, which is within the maximum
  data-block size, no table is built: the pipeline stops in the constructor and returns
  no output, where the claim asks for the empty output.
\<close>

theorem roundtrip_empty_buffer:
  "roundtrip mcl mdb [] = Inl InvalidDereference \<and> roundtrip mcl mdb [] \<noteq> Inr []"
proof -
  have "(CodeTableAdapter_data mcl mdb [] :: error + 32 word CodeTable) = Inl InvalidDereference"
    by (simp add: CodeTableAdapter_data_def resolve_empty_error)
  then show ?thesis by (simp add: roundtrip_def)
qed

subsection \<open>When construction from raw data completes\<close>

text \<open>
  The constructor from raw data returns a table exactly when the buffer is within the
  maximum size, is not empty, and no leaf behind the first of the sorted leaves has a
  depth of \<open>MAXIMUM_CODELENGTH\<close> or more (the assertion in the loop of \<open>_buildTable\<close>).
\<close>

lemma CodeTableAdapter_data_completes_iff:
  "(\<exists>t :: 'a::len word CodeTable. CodeTableAdapter_data mcl mdb data = Inr t) \<longleftrightarrow>
     length data \<le> mdb \<and> data \<noteq> [] \<and>
     (\<exists>leaves. resolve data = Inr leaves \<and>
        (\<forall>n\<in>set (tl (sort_by LeafComparator leaves)). depth n < mcl))"
proof
  assume "\<exists>t :: 'a word CodeTable. CodeTableAdapter_data mcl mdb data = Inr t"
  then obtain t :: "'a word CodeTable" where "CodeTableAdapter_data mcl mdb data = Inr t" by blast
  then obtain leaves where "resolve data = Inr leaves" "data \<noteq> []" "length data \<le> mdb"
    "buildTable mcl (sort_by LeafComparator leaves) zero_codes = Inr t"
    using CodeTableAdapter_data_built by blast
  then show "length data \<le> mdb \<and> data \<noteq> [] \<and>
     (\<exists>leaves. resolve data = Inr leaves \<and>
        (\<forall>n\<in>set (tl (sort_by LeafComparator leaves)). depth n < mcl))"
    by (auto simp: buildTable_iff)
next
  assume a: "length data \<le> mdb \<and> data \<noteq> [] \<and>
     (\<exists>leaves. resolve data = Inr leaves \<and>
        (\<forall>n\<in>set (tl (sort_by LeafComparator leaves)). depth n < mcl))"
  then obtain leaves where res: "resolve data = Inr leaves"
    and below: "\<forall>n\<in>set (tl (sort_by LeafComparator leaves)). depth n < mcl" by blast
  let ?ls = "sort_by LeafComparator leaves"
  have el: "map element leaves = map symbol (countFrequencies data)"
    using resolve_nonempty [of data] a res by auto
  then have "distinct (map element leaves)"
    using distinct_symbols_countFrequencies [of data] by simp
  then have "distinct leaves" by (rule distinct_leaves_of_elements)
  then have sorted: "sorted_wrt LeafComparator ?ls" by (rule sorted_leaves)
  have "countFrequencies data \<noteq> []" using a by (simp add: countFrequencies_empty_iff)
  then have "leaves \<noteq> []" using el by (metis list.map_disc_iff)
  then have ne: "?ls \<noteq> []" by (metis length_sort_by length_0_conv)
  have "descending (depth (hd ?ls)) (tl ?ls)" using sorted ne by (rule sorted_leaves_descending)
  then have "\<exists>t :: 'a word CodeTable. buildTable mcl ?ls zero_codes = Inr t"
    using ne below by (simp add: buildTable_iff)
  then show "\<exists>t :: 'a word CodeTable. CodeTableAdapter_data mcl mdb data = Inr t"
    using a res by (simp add: CodeTableAdapter_data_from_leaves)
qed

text \<open>
  Claim C8 (failure modes of the constructor from raw data). The empty buffer passes the
  assertion \<open>size <= MAXIMUM_DATABLOCK_SIZE\<close>, but the tree is then empty and the
  constructor dereferences \<open>tree.begin()\<close>: construction does not complete, for any value
  of the two size constants.
\<close>

theorem CodeTableAdapter_data_empty_buffer:
  "(CodeTableAdapter_data mcl mdb [] :: error + 'a::len word CodeTable) = Inl InvalidDereference"
proof -
  have "countFrequencies [] = []"
    by (simp add: countFrequencies_def sort_by_def)
  then have "resolve [] = Inl InvalidDereference"
    by (simp add: resolve_def seed_tree_def)
  then show ?thesis by (simp add: CodeTableAdapter_data_def)
qed

end
